theory Spec2Isabelle
  imports Main "HOL-Library.Multiset"
begin

section \<open>ClassInitCounter: tracked values and the register file\<close>

text \<open>
  The model follows \<^verbatim>\<open>service/class-init/ClassInitCounter.h\<close>. Instructions and
  types are only ever compared by pointer identity there, so an \<^verbatim>\<open>IRInstruction*\<close>
  and a \<^verbatim>\<open>DexType*\<close> are modelled by their address, a natural number. A register
  index \<^verbatim>\<open>reg_t\<close> is used as a key only.
\<close>

type_synonym IRInstruction = nat
type_synonym DexType = nat
type_synonym reg_t = nat

datatype FlowStatus = Conditional | AllPaths

datatype Tracked = Object | Merged

text \<open>
  The base class \<^verbatim>\<open>TrackedUses\<close> carries five usage sub-records (\<^verbatim>\<open>method_calls\<close>,
  \<^verbatim>\<open>fields_set\<close>, \<^verbatim>\<open>fields_read\<close>, \<^verbatim>\<open>escapes\<close>, \<^verbatim>\<open>safe_escapes\<close>). None of the
  functions below reads them, so they are kept as one field of an arbitrary type \<open>'u\<close>.
\<close>

datatype 'u ObjectUses =
  ObjectUses (m_id: IRInstruction) (m_class_used: DexType)
    (created_flow: FlowStatus) (object_usage: 'u)

datatype 'u MergedUses =
  MergedUses (m_instrs: "IRInstruction set") (m_classes: "DexType set")
    (m_includes_nullable: bool) (merged_usage: 'u)

text \<open>
  A \<^verbatim>\<open>TrackedUses\<close> object is an \<^verbatim>\<open>ObjectUses\<close> or a \<^verbatim>\<open>MergedUses\<close>; the field
  \<^verbatim>\<open>m_tracked_kind\<close> is fixed by the constructor of the subclass. A
  \<^verbatim>\<open>std::shared_ptr<TrackedUses>\<close> is an \<open>option\<close>: \<open>None\<close> is the null pointer, the
  bottom of the lattice.
\<close>

datatype 'u TrackedUses = TObject "'u ObjectUses" | TMerged "'u MergedUses"

fun m_tracked_kind :: "'u TrackedUses \<Rightarrow> Tracked" where
  "m_tracked_kind (TObject obj) = Object"
| "m_tracked_kind (TMerged mrg) = Merged"

definition same_instr :: "'u ObjectUses \<Rightarrow> 'u ObjectUses \<Rightarrow> bool" where
  "same_instr this other = (m_id this = m_id other)"

text \<open>
  Modelled from the spec: \<^verbatim>\<open>MergedUses::same_instrs\<close> is declared in the header and
  its body is not part of the sources. The specification says that two \<^verbatim>\<open>MergedUses\<close>
  are equal iff their instruction sets are equal.
\<close>

definition same_instrs :: "'u MergedUses \<Rightarrow> 'u MergedUses \<Rightarrow> bool" where
  "same_instrs this other = (m_instrs this = m_instrs other)"

text \<open>
  \<^verbatim>\<open>TrackedComparer::operator()\<close>: the two null checks, the comparison of the kinds,
  then the cast to the subclass that the kind names.
\<close>

fun TrackedComparer :: "'u TrackedUses option \<Rightarrow> 'u TrackedUses option \<Rightarrow> bool" where
  "TrackedComparer None None = True"
| "TrackedComparer None (Some r) = False"
| "TrackedComparer (Some l) None = False"
| "TrackedComparer (Some l) (Some r) =
     (if m_tracked_kind l \<noteq> m_tracked_kind r then False
      else (case (l, r) of
              (TMerged a, TMerged b) \<Rightarrow> same_instrs a b
            | (TObject a, TObject b) \<Rightarrow> same_instr a b
            | (TObject a, TMerged b) \<Rightarrow> False
            | (TMerged a, TObject b) \<Rightarrow> False))"

datatype error = NullDereference | AssertionFailure | LengthError | OutOfRange

text \<open>
  \<^verbatim>\<open>UsedSet\<close> is a \<^verbatim>\<open>std::unordered_set\<close> of shared pointers whose hash is
  \<^verbatim>\<open>TrackedHasher\<close> and whose equality is \<^verbatim>\<open>TrackedComparer\<close>. It is modelled by the
  list of the pointers it stores. \<^verbatim>\<open>TrackedHasher\<close> calls \<^verbatim>\<open>o->hash()\<close>, so hashing a
  null pointer dereferences it: inserting or looking up a null pointer is the error
  \<open>NullDereference\<close>. An insertion stores nothing when the set already holds an
  element that the comparer equates with the new one.
\<close>

definition UsedSet_insert ::
  "'u TrackedUses list \<Rightarrow> 'u TrackedUses option \<Rightarrow> error + 'u TrackedUses list" where
  "UsedSet_insert s uses =
     (case uses of
        None \<Rightarrow> Inl NullDereference
      | Some v \<Rightarrow>
          Inr (if list_ex (\<lambda>x. TrackedComparer (Some x) uses) s then s else s @ [v]))"

definition UsedSet_count ::
  "'u TrackedUses list \<Rightarrow> 'u TrackedUses option \<Rightarrow> error + nat" where
  "UsedSet_count s uses =
     (case uses of
        None \<Rightarrow> Inl NullDereference
      | Some v \<Rightarrow>
          Inr (if list_ex (\<lambda>x. TrackedComparer (Some x) uses) s then 1 else 0))"

text \<open>
  \<^verbatim>\<open>RegisterSet\<close>: the all-seen set and the map from register to shared pointer. A
  key can be present with a null pointer as its value (after \<^verbatim>\<open>clear\<close>), which differs
  from an absent key inside the map and not for \<^verbatim>\<open>get\<close> and \<^verbatim>\<open>is_empty\<close>.
\<close>

record 'u RegisterSet =
  m_all_uses :: "'u TrackedUses list"
  m_registers :: "reg_t \<rightharpoonup> 'u TrackedUses option"

definition RegisterSet_new :: "'u RegisterSet" where
  "RegisterSet_new = \<lparr>m_all_uses = [], m_registers = Map.empty\<rparr>"

definition RegisterSet_insert ::
  "'u RegisterSet \<Rightarrow> reg_t \<Rightarrow> 'u TrackedUses option \<Rightarrow> error + 'u RegisterSet" where
  "RegisterSet_insert R i uses =
     (case UsedSet_insert (m_all_uses R) uses of
        Inl e \<Rightarrow> Inl e
      | Inr s \<Rightarrow> Inr (R\<lparr>m_all_uses := s, m_registers := (m_registers R)(i \<mapsto> uses)\<rparr>))"

definition RegisterSet_clear :: "'u RegisterSet \<Rightarrow> reg_t \<Rightarrow> 'u RegisterSet" where
  "RegisterSet_clear R i =
     (if m_registers R i \<noteq> None then R\<lparr>m_registers := (m_registers R)(i \<mapsto> None)\<rparr>
      else R)"

definition RegisterSet_get :: "'u RegisterSet \<Rightarrow> reg_t \<Rightarrow> 'u TrackedUses option" where
  "RegisterSet_get R i =
     (case m_registers R i of None \<Rightarrow> None | Some val \<Rightarrow> val)"

definition RegisterSet_is_empty :: "'u RegisterSet \<Rightarrow> reg_t \<Rightarrow> bool" where
  "RegisterSet_is_empty R i =
     (case m_registers R i of None \<Rightarrow> True | Some val \<Rightarrow> val = None)"

subsection \<open>consistent_with\<close>

text \<open>
  Modelled from the spec: \<^verbatim>\<open>ObjectUses::consistent_with\<close> and
  \<^verbatim>\<open>MergedUses::consistent_with\<close> override the pure virtual function of
  \<^verbatim>\<open>TrackedUses\<close>; the header declares them and their bodies are not part of the
  sources. The specification says that for \<open>ObjectUses(i, T)\<close> the result is true iff
  the argument is the same \<open>ObjectUses(i)\<close> or a \<open>MergedUses\<close> whose instruction set
  contains \<open>i\<close>, and that for \<open>MergedUses(I, C, nullable)\<close> it holds of a
  \<open>MergedUses(I', \<dots>)\<close> with \<open>I' = I\<close> whose nullable flags agree in the direction needed,
  the direction from a \<open>MergedUses\<close> to an \<open>ObjectUses\<close> being false. The flags are
  taken to agree when the flag of the receiver implies the flag of the argument. The
  specification gives no rule for the usage sub-records, which are left out.
\<close>

definition ObjectUses_consistent_with :: "'u ObjectUses \<Rightarrow> 'u TrackedUses \<Rightarrow> bool" where
  "ObjectUses_consistent_with this other =
     (case other of
        TObject obj \<Rightarrow> same_instr this obj
      | TMerged mrg \<Rightarrow> m_id this \<in> m_instrs mrg)"

text \<open>
  Modelled from the spec: the body of \<^verbatim>\<open>MergedUses::consistent_with\<close> is not part of
  the sources; see above for what the specification says of it.
\<close>

definition MergedUses_consistent_with :: "'u MergedUses \<Rightarrow> 'u TrackedUses \<Rightarrow> bool" where
  "MergedUses_consistent_with this other =
     (case other of
        TObject obj \<Rightarrow> False
      | TMerged mrg \<Rightarrow>
          same_instrs this mrg \<and> (m_includes_nullable this \<longrightarrow> m_includes_nullable mrg))"

text \<open>The virtual call: the subclass of the receiver selects the function.\<close>

fun consistent_with :: "'u TrackedUses \<Rightarrow> 'u TrackedUses \<Rightarrow> bool" where
  "consistent_with (TObject obj) other = ObjectUses_consistent_with obj other"
| "consistent_with (TMerged mrg) other = MergedUses_consistent_with mrg other"

section \<open>Work queue\<close>

text \<open>
  The model follows the header of the work queue: \<^verbatim>\<open>workqueue_impl::create_permutation\<close>,
  \<^verbatim>\<open>WorkerState\<close> and \<^verbatim>\<open>WorkQueue\<close>.
\<close>

subsection \<open>create_permutation\<close>

text \<open>
  \<^verbatim>\<open>std::find\<close> as the position of the first element that satisfies the test, and
  \<^verbatim>\<open>std::iter_swap\<close> on two positions of a vector.
\<close>

fun find_index :: "('a \<Rightarrow> bool) \<Rightarrow> 'a list \<Rightarrow> nat option" where
  "find_index P [] = None"
| "find_index P (x # xs) =
     (if P x then Some 0 else map_option Suc (find_index P xs))"

definition iter_swap :: "'a list \<Rightarrow> nat \<Rightarrow> nat \<Rightarrow> 'a list" where
  "iter_swap xs a b = xs[a := xs ! b, b := xs ! a]"

text \<open>
  \<^verbatim>\<open>create_permutation(num, thread_idx)\<close>. The vector holds \<open>0, \<dots>, num - 1\<close> after
  \<^verbatim>\<open>std::iota\<close>. \<^verbatim>\<open>std::shuffle\<close> with an engine seeded by the clock is a parameter
  \<open>shuffle\<close>: what it does to the vector differs from call to call, and the theorems
  assume of it only that it permutes its argument. A negative \<open>num\<close> makes the vector's
  constructor throw (\<open>LengthError\<close>); when \<^verbatim>\<open>std::find\<close> finds nothing it returns the end
  iterator, which \<^verbatim>\<open>std::iter_swap\<close> must not dereference (\<open>OutOfRange\<close>). The elements
  are never negative, so comparing an \<^verbatim>\<open>int\<close> element with the \<^verbatim>\<open>unsigned int\<close>
  \<open>thread_idx\<close> is the comparison of the two numbers.
\<close>

definition create_permutation ::
  "(int list \<Rightarrow> int list) \<Rightarrow> int \<Rightarrow> nat \<Rightarrow> error + int list" where
  "create_permutation shuffle num thread_idx =
     (if num < 0 then Inl LengthError
      else
        let attempts = shuffle [0..num - 1] in
        (case find_index (\<lambda>e. e = int thread_idx) attempts of
           None \<Rightarrow> Inl OutOfRange
         | Some k \<Rightarrow> Inr (iter_swap attempts 0 k)))"

subsection \<open>WorkerState and WorkQueue\<close>

text \<open>
  \<^verbatim>\<open>WorkerState\<close>: the field \<^verbatim>\<open>m_id\<close> is called \<open>m_wid\<close> here, the name \<open>m_id\<close> being
  taken by \<^verbatim>\<open>ObjectUses\<close>. The mutex only makes \<^verbatim>\<open>push_task\<close> and \<^verbatim>\<open>pop_task\<close> atomic
  and has no field. The constructor leaves \<^verbatim>\<open>m_result\<close> default-initialised: \<open>dflt\<close>
  stands for the default value of the type \<^verbatim>\<open>Output\<close>.
\<close>

record ('i, 'd, 'o) WorkerState =
  m_wid :: nat
  m_queue :: "'i list"
  m_data :: 'd
  m_result :: 'o

definition WorkerState_new :: "'o \<Rightarrow> nat \<Rightarrow> 'd \<Rightarrow> ('i, 'd, 'o) WorkerState" where
  "WorkerState_new dflt wid initial =
     \<lparr>m_wid = wid, m_queue = [], m_data = initial, m_result = dflt\<rparr>"

definition push_task :: "('i, 'd, 'o) WorkerState \<Rightarrow> 'i \<Rightarrow> ('i, 'd, 'o) WorkerState" where
  "push_task st task = st\<lparr>m_queue := m_queue st @ [task]\<rparr>"

definition pop_task ::
  "('i, 'd, 'o) WorkerState \<Rightarrow> 'i option \<times> ('i, 'd, 'o) WorkerState" where
  "pop_task st =
     (case m_queue st of
        task # rest \<Rightarrow> (Some task, st\<lparr>m_queue := rest\<rparr>)
      | [] \<Rightarrow> (None, st))"

text \<open>
  A mapper is called with a pointer to the worker's state and a task. Through that
  pointer it can read the worker's id and read and write the worker's data
  (\<^verbatim>\<open>get_data\<close>); \<^verbatim>\<open>m_result\<close> and \<^verbatim>\<open>m_queue\<close> are private. So a mapper is a function
  of the id, the data and the task to the output and the new data. Mappers that call
  \<^verbatim>\<open>push_task\<close> while the queue runs are outside this model.
\<close>

type_synonym ('i, 'd, 'o) Mapper = "nat \<Rightarrow> 'd \<Rightarrow> 'i \<Rightarrow> 'o \<times> 'd"

record ('i, 'd, 'o) WorkQueue =
  m_mapper :: "('i, 'd, 'o) Mapper"
  m_reducer :: "'o \<Rightarrow> 'o \<Rightarrow> 'o"
  m_states :: "('i, 'd, 'o) WorkerState list"
  m_num_threads :: nat
  m_insert_idx :: nat

text \<open>
  The constructor: \<^verbatim>\<open>always_assert(num_threads >= 1)\<close> aborts the program when it fails
  (\<open>AssertionFailure\<close>); otherwise the loop appends one \<^verbatim>\<open>WorkerState\<close> for each index
  \<open>i\<close> from \<open>0\<close> to \<open>num_threads - 1\<close>, built from \<open>i\<close> and \<open>data_initializer i\<close>.
\<close>

definition WorkQueue_new ::
  "'o \<Rightarrow> ('i, 'd, 'o) Mapper \<Rightarrow> ('o \<Rightarrow> 'o \<Rightarrow> 'o) \<Rightarrow> (nat \<Rightarrow> 'd) \<Rightarrow> nat \<Rightarrow>
     error + ('i, 'd, 'o) WorkQueue" where
  "WorkQueue_new dflt mapper reducer data_initializer num_threads =
     (if \<not> num_threads \<ge> 1 then Inl AssertionFailure
      else Inr \<lparr>m_mapper = mapper, m_reducer = reducer,
                m_states =
                  fold (\<lambda>i sts. sts @ [WorkerState_new dflt i (data_initializer i)])
                    [0..<num_threads] [],
                m_num_threads = num_threads, m_insert_idx = 0\<rparr>)"

text \<open>
  \<^verbatim>\<open>add_item\<close> advances the insertion index first and pushes to the queue of the worker
  it then names. The queue is pushed to directly, without the lock.
\<close>

definition add_item :: "('i, 'd, 'o) WorkQueue \<Rightarrow> 'i \<Rightarrow> ('i, 'd, 'o) WorkQueue" where
  "add_item q task =
     (let idx = (m_insert_idx q + 1) mod m_num_threads q in
      q\<lparr>m_insert_idx := idx,
        m_states := (m_states q)[idx := push_task (m_states q ! idx) task]\<rparr>)"

text \<open>A sequence of calls of \<^verbatim>\<open>add_item\<close>, one for each task of the list, in order.\<close>

definition add_items :: "('i, 'd, 'o) WorkQueue \<Rightarrow> 'i list \<Rightarrow> ('i, 'd, 'o) WorkQueue" where
  "add_items q tasks = foldl add_item q tasks"

subsection \<open>run_all\<close>

text \<open>
  \<^verbatim>\<open>consume\<close>: the worker \<open>w\<close> applies the mapper to its own state and the task and
  folds the output into its own \<^verbatim>\<open>m_result\<close> with the reducer.
\<close>

definition consume :: "('i, 'd, 'o) WorkQueue \<Rightarrow> nat \<Rightarrow> 'i \<Rightarrow> ('i, 'd, 'o) WorkQueue" where
  "consume q w task =
     (let state = m_states q ! w;
          (out, d) = m_mapper q (m_wid state) (m_data state) task
      in q\<lparr>m_states :=
             (m_states q)[w := state\<lparr>m_data := d,
                                     m_result := m_reducer q (m_result state) out\<rparr>]\<rparr>)"

text \<open>
  \<^verbatim>\<open>m_num_threads\<close> is a \<^verbatim>\<open>size_t\<close> and \<^verbatim>\<open>create_permutation\<close> takes an \<^verbatim>\<open>int\<close>: the
  argument is narrowed to 32 bits, two's complement.
\<close>

definition size_t_to_int :: "nat \<Rightarrow> int" where
  "size_t_to_int n = (int n + 2 ^ 31) mod 2 ^ 32 - 2 ^ 31"

text \<open>
  The worker threads of \<^verbatim>\<open>run_all\<close> share the queues only, and every access to a queue
  is a \<^verbatim>\<open>pop_task\<close> under the queue's lock; \<^verbatim>\<open>m_result\<close> and \<^verbatim>\<open>m_data\<close> of a worker
  are touched by that worker alone. A run is therefore an interleaving of steps, each
  step being what one thread does up to and including its next \<^verbatim>\<open>pop_task\<close> (with the
  \<^verbatim>\<open>consume\<close> that follows a successful pop). A thread is at one of these points:
  \<^item> \<open>Start\<close>: not yet run; its step sets \<^verbatim>\<open>m_result\<close> to \<open>init_output\<close> and builds
    \<open>attempts\<close> with \<open>create_permutation\<close>;
  \<^item> \<open>Probe attempts k\<close>: inside the \<^verbatim>\<open>for\<close> loop, about to pop the queue of
    \<open>attempts ! k\<close>; a task found is consumed and the \<^verbatim>\<open>while\<close> loop starts the
    \<^verbatim>\<open>for\<close> loop again, an empty queue moves on to \<open>k + 1\<close>, and the end of
    \<open>attempts\<close> with no task found returns from the thread;
  \<^item> \<open>Done\<close>: returned;
  \<^item> \<open>Crashed e\<close>: \<open>create_permutation\<close> failed, or \<^verbatim>\<open>m_states[idx]\<close> was out of range.
  The shuffle of worker \<open>w\<close> is \<open>shuffle_of w\<close>. The index of a worker is below \<open>2\<^sup>3\<^sup>2\<close>, so
  passing it as the \<^verbatim>\<open>unsigned int\<close> \<open>thread_idx\<close> does not change it.
\<close>

datatype thread = Start | Probe "int list" nat | Done | Crashed error

definition worker_step ::
  "(nat \<Rightarrow> int list \<Rightarrow> int list) \<Rightarrow> 'o \<Rightarrow> nat \<Rightarrow>
   ('i, 'd, 'o) WorkQueue \<times> thread list \<Rightarrow> ('i, 'd, 'o) WorkQueue \<times> thread list" where
  "worker_step shuffle_of init_output w c =
     (let q = fst c; ts = snd c in
      if \<not> w < length ts then c
      else
        (case ts ! w of
           Start \<Rightarrow>
             (q\<lparr>m_states := (m_states q)[w := (m_states q ! w)\<lparr>m_result := init_output\<rparr>]\<rparr>,
              ts[w := (case create_permutation (shuffle_of w)
                              (size_t_to_int (m_num_threads q)) w of
                         Inl e \<Rightarrow> Crashed e
                       | Inr attempts \<Rightarrow> Probe attempts 0)])
         | Probe attempts k \<Rightarrow>
             if k < length attempts then
               (let idx = attempts ! k in
                if idx < 0 \<or> \<not> nat idx < length (m_states q)
                then (q, ts[w := Crashed OutOfRange])
                else
                  (case pop_task (m_states q ! nat idx) of
                     (None, other_state) \<Rightarrow> (q, ts[w := Probe attempts (k + 1)])
                   | (Some task, other_state) \<Rightarrow>
                       (consume (q\<lparr>m_states := (m_states q)[nat idx := other_state]\<rparr>) w task,
                        ts[w := Probe attempts 0])))
             else (q, ts[w := Done])
         | Done \<Rightarrow> c
         | Crashed e \<Rightarrow> c))"

text \<open>
  \<open>run_workers\<close> runs the threads under a schedule, the list of the workers in the
  order in which they take their steps. \<open>run_all\<close> starts one thread per worker; when
  the schedule has let every thread return, the joins complete and the reducer is
  folded over the workers' results from \<open>init_output\<close>. The result is \<open>None\<close> when the
  schedule ends before every thread has returned, or a thread crashed.
\<close>

definition run_workers ::
  "(nat \<Rightarrow> int list \<Rightarrow> int list) \<Rightarrow> 'o \<Rightarrow> nat list \<Rightarrow>
   ('i, 'd, 'o) WorkQueue \<times> thread list \<Rightarrow> ('i, 'd, 'o) WorkQueue \<times> thread list" where
  "run_workers shuffle_of init_output sched c =
     foldl (\<lambda>c w. worker_step shuffle_of init_output w c) c sched"

definition run_all ::
  "(nat \<Rightarrow> int list \<Rightarrow> int list) \<Rightarrow> nat list \<Rightarrow> ('i, 'd, 'o) WorkQueue \<Rightarrow> 'o \<Rightarrow>
   ('o \<times> ('i, 'd, 'o) WorkQueue) option" where
  "run_all shuffle_of sched q init_output =
     (let c = run_workers shuffle_of init_output sched
                (q, replicate (m_num_threads q) Start);
          q' = fst c
      in if list_all (\<lambda>t. t = Done) (snd c)
         then Some (foldl (m_reducer q') init_output (map m_result (m_states q')), q')
         else None)"

text \<open>
  What the claims compare \<open>run_all\<close> with: one worker consuming a list of tasks in
  order, from an accumulator and its data.
\<close>

fun consume_seq ::
  "('i, 'd, 'o) Mapper \<Rightarrow> ('o \<Rightarrow> 'o \<Rightarrow> 'o) \<Rightarrow> nat \<Rightarrow> 'o \<times> 'd \<Rightarrow> 'i list \<Rightarrow> 'o \<times> 'd" where
  "consume_seq mapper reducer wid (acc, d) [] = (acc, d)"
| "consume_seq mapper reducer wid (acc, d) (task # tasks) =
     (case mapper wid d task of
        (out, d') \<Rightarrow> consume_seq mapper reducer wid (reducer acc out, d') tasks)"

text \<open>The tasks that wait in the queues of the workers, as a multiset.\<close>

definition pending :: "('i, 'd, 'o) WorkerState list \<Rightarrow> 'i multiset" where
  "pending sts = (\<Sum>st\<leftarrow>sts. mset (m_queue st))"

subsection \<open>Invariant and measure of a run\<close>

text \<open>
  What holds of the queue \<open>q\<close> and of a thread of worker \<open>w\<close> at any moment of a run
  that started from the queue \<open>q0\<close>, \<open>consumed\<close> being the tasks the worker has consumed
  so far, in order: before its first step the worker has consumed nothing and its data
  are the initial ones; afterwards its result and data are those of consuming
  \<open>consumed\<close> in order from \<open>init_output\<close>; the queues it has probed in the current
  pass are empty, and all queues are empty once it has returned. No thread crashes.
\<close>

definition thread_ok ::
  "('i, 'd, 'o) WorkQueue \<Rightarrow> 'o \<Rightarrow> ('i, 'd, 'o) WorkQueue \<Rightarrow> nat \<Rightarrow> 'i list \<Rightarrow> thread \<Rightarrow> bool" where
  "thread_ok q0 init_output q w consumed t =
     (let N = m_num_threads q0; st = m_states q ! w; st0 = m_states q0 ! w;
          folded = ((m_result st, m_data st) =
                      consume_seq (m_mapper q0) (m_reducer q0) (m_wid st0)
                        (init_output, m_data st0) consumed)
      in case t of
           Start \<Rightarrow> consumed = [] \<and> m_data st = m_data st0
         | Probe a k \<Rightarrow>
             folded \<and> mset a = mset [0..int N - 1] \<and> k \<le> length a \<and>
             (\<forall>j<k. m_queue (m_states q ! nat (a ! j)) = [])
         | Done \<Rightarrow> folded \<and> (\<forall>j<N. m_queue (m_states q ! j) = [])
         | Crashed e \<Rightarrow> False)"

definition run_inv ::
  "('i, 'd, 'o) WorkQueue \<Rightarrow> 'o \<Rightarrow> 'i list list \<Rightarrow>
   ('i, 'd, 'o) WorkQueue \<times> thread list \<Rightarrow> bool" where
  "run_inv q0 init_output cs c =
     (let q = fst c; ts = snd c; N = m_num_threads q0 in
      m_mapper q = m_mapper q0 \<and> m_reducer q = m_reducer q0 \<and> m_num_threads q = N \<and>
      length (m_states q) = N \<and> length ts = N \<and> length cs = N \<and>
      pending (m_states q) + mset (concat cs) = pending (m_states q0) \<and>
      (\<forall>w<N. m_wid (m_states q ! w) = m_wid (m_states q0 ! w) \<and>
             thread_ok q0 init_output q w (cs ! w) (ts ! w)) \<and>
      (N = 1 \<longrightarrow> cs ! 0 @ m_queue (m_states q ! 0) = m_queue (m_states q0 ! 0)))"

text \<open>
  The fuel of worker \<open>w\<close> in a configuration bounds the steps its thread can still
  take: each task that waits in a queue can cost it a pass over the \<open>N\<close> queues and the
  step that consumes it, and the weight of the thread counts the steps left in its
  current pass. \<open>run_fuel\<close> is the fuel of every worker when \<open>run_all\<close> starts.
\<close>

fun thread_weight :: "nat \<Rightarrow> thread \<Rightarrow> nat" where
  "thread_weight N Start = N + 2"
| "thread_weight N (Probe a k) = N + 1 - k"
| "thread_weight N Done = 0"
| "thread_weight N (Crashed e) = 0"

definition tasks_left :: "('i, 'd, 'o) WorkQueue \<times> thread list \<Rightarrow> nat" where
  "tasks_left c = size (pending (m_states (fst c)))"

definition worker_fuel :: "nat \<Rightarrow> nat \<Rightarrow> ('i, 'd, 'o) WorkQueue \<times> thread list \<Rightarrow> nat" where
  "worker_fuel N w c = tasks_left c * (N + 1) + thread_weight N (snd c ! w)"

definition run_fuel :: "('i, 'd, 'o) WorkQueue \<Rightarrow> nat" where
  "run_fuel q = size (pending (m_states q)) * (m_num_threads q + 1) + m_num_threads q + 2"

text \<open>
  The schedule that lets the workers take turns, \<open>rounds\<close> times each.
\<close>

definition round_robin :: "nat \<Rightarrow> nat \<Rightarrow> nat list" where
  "round_robin N rounds = concat (replicate rounds [0..<N])"

text \<open>
  The outputs that the mapper produces when one worker maps a list of tasks in order,
  its data threaded through, and the outputs of a run in which worker \<open>w\<close> consumed the
  tasks \<open>cs ! w\<close>.
\<close>

fun mapper_outputs :: "('i, 'd, 'o) Mapper \<Rightarrow> nat \<Rightarrow> 'd \<Rightarrow> 'i list \<Rightarrow> 'o list" where
  "mapper_outputs mapper wid d [] = []"
| "mapper_outputs mapper wid d (task # tasks) =
     (case mapper wid d task of (out, d') \<Rightarrow> out # mapper_outputs mapper wid d' tasks)"

definition run_outputs ::
  "('i, 'd, 'o) WorkQueue \<Rightarrow> 'i list list \<Rightarrow> 'o list list" where
  "run_outputs q cs =
     map (\<lambda>w. mapper_outputs (m_mapper q) (m_wid (m_states q ! w))
                 (m_data (m_states q ! w)) (cs ! w))
       [0..<m_num_threads q]"

section \<open>Properties of the register file\<close>

lemma TrackedComparer_refl: "TrackedComparer p p"
proof (cases p)
  case None
  then show ?thesis by simp
next
  case (Some v)
  then show ?thesis
    by (cases v) (simp_all add: same_instr_def same_instrs_def)
qed

lemma UsedSet_insert_count:
  "UsedSet_insert s (Some v) = Inr s' \<Longrightarrow> UsedSet_count s' (Some v) = Inr 1"
  using TrackedComparer_refl [of "Some v"]
  by (auto simp: UsedSet_insert_def UsedSet_count_def list_ex_iff
      simp del: TrackedComparer.simps split: if_splits)

lemma RegisterSet_clear_all_uses: "m_all_uses (RegisterSet_clear R i) = m_all_uses R"
  by (simp add: RegisterSet_clear_def)

text \<open>
  Claim C2. Inserting a tracked value \<open>v\<close> (a non-null pointer) into register \<open>i\<close>
  succeeds, and after a following \<open>clear\<close> of \<open>i\<close> a lookup of \<open>v\<close> in the all-seen
  set still finds it; \<open>clear\<close> leaves the all-seen set of any register file as it was.
  The lookup is the set's own, by \<open>TrackedComparer\<close>: when the set already held a value
  that the comparer equates with \<open>v\<close>, that value stays and stands for \<open>v\<close>.
\<close>

theorem C2_insert_clear_keeps_all_uses:
  "\<exists>R'. RegisterSet_insert R i (Some v) = Inr R' \<and>
        UsedSet_count (m_all_uses (RegisterSet_clear R' i)) (Some v) = Inr 1 \<and>
        m_all_uses (RegisterSet_clear R' i) = m_all_uses R' \<and>
        m_all_uses (RegisterSet_clear R i) = m_all_uses R"
proof -
  obtain s where s: "UsedSet_insert (m_all_uses R) (Some v) = Inr s"
    by (simp add: UsedSet_insert_def)
  let ?R' = "R\<lparr>m_all_uses := s, m_registers := (m_registers R)(i \<mapsto> Some v)\<rparr>"
  have ins: "RegisterSet_insert R i (Some v) = Inr ?R'"
    by (simp add: RegisterSet_insert_def s)
  have "UsedSet_count s (Some v) = Inr 1"
    using s by (rule UsedSet_insert_count)
  then have "UsedSet_count (m_all_uses (RegisterSet_clear ?R' i)) (Some v) = Inr 1"
    by (simp add: RegisterSet_clear_all_uses)
  with ins show ?thesis
    by (simp add: RegisterSet_clear_all_uses)
qed

theorem C2_insert_clear_keeps_all_uses_witness:
  "\<exists>R'. RegisterSet_insert (RegisterSet_new :: unit RegisterSet) 3
          (Some (TObject (ObjectUses 7 1 AllPaths ()))) = Inr R' \<and>
        UsedSet_count (m_all_uses (RegisterSet_clear R' 3))
          (Some (TObject (ObjectUses 7 1 AllPaths ()))) = Inr 1"
  using C2_insert_clear_keeps_all_uses
    [of "RegisterSet_new :: unit RegisterSet" 3 "TObject (ObjectUses 7 1 AllPaths ())"]
  by blast

text \<open>
  Claim C10. After \<open>clear i\<close> register \<open>i\<close> reads as bottom and is empty, whether
  or not the key was present; every other register and the all-seen set are as before.
  A register whose key is absent from the map (never inserted), in particular any
  register of a new register file, reads as bottom and is empty.
\<close>

theorem C10_clear_get_frame:
  "RegisterSet_get (RegisterSet_clear R i) i = None \<and>
   RegisterSet_is_empty (RegisterSet_clear R i) i \<and>
   (\<forall>j. j \<noteq> i \<longrightarrow>
      m_registers (RegisterSet_clear R i) j = m_registers R j \<and>
      RegisterSet_get (RegisterSet_clear R i) j = RegisterSet_get R j \<and>
      RegisterSet_is_empty (RegisterSet_clear R i) j = RegisterSet_is_empty R j) \<and>
   m_all_uses (RegisterSet_clear R i) = m_all_uses R \<and>
   (m_registers R i = None \<longrightarrow>
      RegisterSet_get R i = None \<and> RegisterSet_is_empty R i \<and>
      RegisterSet_clear R i = R) \<and>
   RegisterSet_get (RegisterSet_new :: 'u RegisterSet) i = None \<and>
   RegisterSet_is_empty (RegisterSet_new :: 'u RegisterSet) i"
proof -
  have at_i: "RegisterSet_get (RegisterSet_clear R i) i = None"
    by (cases "m_registers R i") (simp_all add: RegisterSet_get_def RegisterSet_clear_def)
  have empty_i: "RegisterSet_is_empty (RegisterSet_clear R i) i"
    by (cases "m_registers R i")
      (simp_all add: RegisterSet_is_empty_def RegisterSet_clear_def)
  have others: "m_registers (RegisterSet_clear R i) j = m_registers R j" if "j \<noteq> i" for j
    using that by (simp add: RegisterSet_clear_def)
  have frame: "\<forall>j. j \<noteq> i \<longrightarrow>
      m_registers (RegisterSet_clear R i) j = m_registers R j \<and>
      RegisterSet_get (RegisterSet_clear R i) j = RegisterSet_get R j \<and>
      RegisterSet_is_empty (RegisterSet_clear R i) j = RegisterSet_is_empty R j"
    using others by (simp add: RegisterSet_get_def RegisterSet_is_empty_def)
  have absent: "m_registers R i = None \<longrightarrow>
      RegisterSet_get R i = None \<and> RegisterSet_is_empty R i \<and> RegisterSet_clear R i = R"
    by (simp add: RegisterSet_get_def RegisterSet_is_empty_def RegisterSet_clear_def)
  have fresh: "RegisterSet_get (RegisterSet_new :: 'u RegisterSet) i = None \<and>
      RegisterSet_is_empty (RegisterSet_new :: 'u RegisterSet) i"
    by (simp add: RegisterSet_get_def RegisterSet_is_empty_def RegisterSet_new_def)
  from at_i empty_i frame absent fresh show ?thesis
    by (simp add: RegisterSet_clear_all_uses)
qed

theorem C10_clear_get_frame_witness:
  "RegisterSet_get (RegisterSet_clear
      \<lparr>m_all_uses = [TObject (ObjectUses 7 1 AllPaths ())],
       m_registers = [2 \<mapsto> Some (TObject (ObjectUses 7 1 AllPaths ()))]\<rparr> 5) 5 = None \<and>
   RegisterSet_get (RegisterSet_clear
      \<lparr>m_all_uses = [TObject (ObjectUses 7 1 AllPaths ())],
       m_registers = [2 \<mapsto> Some (TObject (ObjectUses 7 1 AllPaths ()))]\<rparr> 5) 2 =
     Some (TObject (ObjectUses 7 1 AllPaths ())) \<and>
   RegisterSet_is_empty
      \<lparr>m_all_uses = [TObject (ObjectUses 7 1 AllPaths ())],
       m_registers = [2 \<mapsto> Some (TObject (ObjectUses 7 1 AllPaths ()))]\<rparr> 5"
proof -
  let ?R = "\<lparr>m_all_uses = [TObject (ObjectUses 7 1 AllPaths ())],
             m_registers = [2 \<mapsto> Some (TObject (ObjectUses 7 1 AllPaths ()))]\<rparr>
            :: unit RegisterSet"
  note th = C10_clear_get_frame [of ?R 5]
  have absent: "m_registers ?R 5 = None"
    by simp
  have at5: "RegisterSet_get (RegisterSet_clear ?R 5) 5 = None"
    using th by (rule conjunct1)
  have "RegisterSet_get (RegisterSet_clear ?R 5) 2 = RegisterSet_get ?R 2"
    using th by (elim conjE allE [of _ 2]) simp
  moreover have "RegisterSet_get ?R 2 = Some (TObject (ObjectUses 7 1 AllPaths ()))"
    by (simp add: RegisterSet_get_def)
  ultimately have at2: "RegisterSet_get (RegisterSet_clear ?R 5) 2 =
      Some (TObject (ObjectUses 7 1 AllPaths ()))"
    by simp
  have empty5: "RegisterSet_is_empty ?R 5"
    using th absent by (elim conjE) simp
  from at5 at2 empty5 show ?thesis
    by (intro conjI)
qed

section \<open>Equality of tracked values\<close>

text \<open>
  Claim C9. \<open>TrackedComparer\<close> never equates values of different variants (nor a
  value with the null pointer); two \<open>ObjectUses\<close> are equal iff their creating
  instructions are the same pointer; two \<open>MergedUses\<close> are equal iff their instruction
  sets are equal. Types, flow status, nullable flags and usage records play no part.
\<close>

theorem C9_TrackedComparer_equality:
  "(m_tracked_kind a \<noteq> m_tracked_kind b \<longrightarrow> \<not> TrackedComparer (Some a) (Some b)) \<and>
   \<not> TrackedComparer (Some (TObject obj)) (Some (TMerged mrg)) \<and>
   \<not> TrackedComparer (Some (TMerged mrg)) (Some (TObject obj)) \<and>
   \<not> TrackedComparer (Some a) None \<and> \<not> TrackedComparer None (Some a) \<and>
   TrackedComparer (Some (TObject (ObjectUses i T f u)))
       (Some (TObject (ObjectUses i' T' f' u'))) = (i = i') \<and>
   TrackedComparer (Some (TMerged (MergedUses I C n w)))
       (Some (TMerged (MergedUses I' C' n' w'))) = (I = I')"
  by (simp add: same_instr_def same_instrs_def)

theorem C9_TrackedComparer_equality_witness:
  "\<not> TrackedComparer (Some (TObject (ObjectUses 7 1 AllPaths ())))
       (Some (TMerged (MergedUses {7, 8} {1} False ()))) \<and>
   TrackedComparer (Some (TObject (ObjectUses 7 1 AllPaths ())))
       (Some (TObject (ObjectUses 7 2 Conditional ()))) \<and>
   \<not> TrackedComparer (Some (TObject (ObjectUses 7 1 AllPaths ())))
       (Some (TObject (ObjectUses 8 1 AllPaths ()))) \<and>
   TrackedComparer (Some (TMerged (MergedUses {7, 8} {1} False ())))
       (Some (TMerged (MergedUses {8, 7} {1, 2} True ())))"
proof -
  let ?o7 = "TObject (ObjectUses 7 1 AllPaths ())"
  let ?m78 = "TMerged (MergedUses {7, 8} {1} False ())"
  have sets: "{7, 8} = {8, 7::nat}"
    by auto
  note th1 = C9_TrackedComparer_equality
    [of ?o7 ?m78 undefined undefined 7 1 AllPaths "()" 7 2 Conditional "()"
        "{7, 8}" "{1}" False "()" "{8, 7}" "{1, 2}" True "()"]
  note th2 = C9_TrackedComparer_equality
    [of ?o7 ?m78 undefined undefined 7 1 AllPaths "()" 8 1 AllPaths "()"
        "{7, 8}" "{1}" False "()" "{8, 7}" "{1, 2}" True "()"]
  have kinds: "m_tracked_kind ?o7 \<noteq> m_tracked_kind ?m78"
    by simp
  have c1: "\<not> TrackedComparer (Some ?o7) (Some ?m78)"
    using th1 kinds by (elim conjE) blast
  have c2: "TrackedComparer (Some (TObject (ObjectUses 7 1 AllPaths ())))
      (Some (TObject (ObjectUses 7 2 Conditional ())))"
    using th1 by (elim conjE) blast
  have c3: "\<not> TrackedComparer (Some (TObject (ObjectUses 7 1 AllPaths ())))
      (Some (TObject (ObjectUses 8 1 AllPaths ())))"
  proof -
    have "(7::nat) \<noteq> 8" by simp
    with th2 show ?thesis by (elim conjE) blast
  qed
  have c4: "TrackedComparer (Some (TMerged (MergedUses {7, 8} {1} False ())))
      (Some (TMerged (MergedUses {8, 7} {1, 2} True ())))"
    using th1 sets by (elim conjE) blast
  from c1 c2 c3 c4 show ?thesis
    by (intro conjI)
qed

section \<open>Consistency of tracked values\<close>

lemma consistent_with_refl: "consistent_with v v"
  by (cases v)
    (simp_all add: ObjectUses_consistent_with_def MergedUses_consistent_with_def
      same_instr_def same_instrs_def)

text \<open>
  Claim C1. \<open>consistent_with\<close> is reflexive on every tracked value, in particular on
  every \<open>ObjectUses\<close>, and it is not symmetric: an \<open>ObjectUses\<close> whose creating
  instruction belongs to the instruction set of a \<open>MergedUses\<close> is consistent with that
  \<open>MergedUses\<close>, and the \<open>MergedUses\<close> is not consistent with the \<open>ObjectUses\<close>.
\<close>

theorem C1_consistent_with:
  "(m_id obj \<in> m_instrs mrg \<longrightarrow>
      consistent_with (TObject obj) (TMerged mrg) \<and>
      \<not> consistent_with (TMerged mrg) (TObject obj)) \<and>
   consistent_with (TObject obj) (TObject obj) \<and>
   consistent_with v v \<and>
   (consistent_with (TObject obj) (TObject obj') \<longleftrightarrow> m_id obj = m_id obj') \<and>
   (consistent_with (TObject obj) (TMerged mrg) \<longleftrightarrow> m_id obj \<in> m_instrs mrg) \<and>
   \<not> consistent_with (TMerged mrg) (TObject obj)"
  using consistent_with_refl [of v] consistent_with_refl [of "TObject obj"]
  by (simp add: ObjectUses_consistent_with_def MergedUses_consistent_with_def same_instr_def)

theorem C1_consistent_with_witness:
  "consistent_with (TObject (ObjectUses 7 1 AllPaths ()))
     (TMerged (MergedUses {7, 8} {1, 2} False ())) \<and>
   \<not> consistent_with (TMerged (MergedUses {7, 8} {1, 2} False ()))
     (TObject (ObjectUses 7 1 AllPaths ())) \<and>
   consistent_with (TObject (ObjectUses 7 1 AllPaths ())) (TObject (ObjectUses 7 1 AllPaths ()))"
proof -
  have mem: "m_id (ObjectUses 7 1 AllPaths ()) \<in> m_instrs (MergedUses {7, 8} {1, 2} False ())"
    by simp
  show ?thesis
    using mem C1_consistent_with [of "ObjectUses 7 1 AllPaths ()"
        "MergedUses {7, 8} {1, 2} False ()" "TObject (ObjectUses 7 1 AllPaths ())"
        "ObjectUses 7 1 AllPaths ()"]
    by blast
qed

section \<open>Properties of the work queue\<close>

lemma fold_snoc_map: "fold (\<lambda>i sts. sts @ [f i]) xs acc = acc @ map f xs"
  by (induction xs arbitrary: acc) simp_all

lemma WorkQueue_new_states:
  "WorkQueue_new dflt mapper reducer di n = Inr q \<Longrightarrow>
   m_states q = map (\<lambda>i. WorkerState_new dflt i (di i)) [0..<n]"
  by (auto simp: WorkQueue_new_def fold_snoc_map split: if_splits)

text \<open>
  Claim C8. With \<open>num_threads < 1\<close> the constructor fails on its assertion. With
  \<open>num_threads \<ge> 1\<close> it succeeds and creates exactly \<open>num_threads\<close> worker states; the
  state at index \<open>i\<close> has id \<open>i\<close>, an empty queue, and as data the value of the data
  initializer at \<open>i\<close> (the loop applies the initializer once for each index).
\<close>

theorem C8_constructor:
  "(num_threads < 1 \<longrightarrow>
      WorkQueue_new dflt mapper reducer data_initializer num_threads = Inl AssertionFailure) \<and>
   (1 \<le> num_threads \<longrightarrow>
      (\<exists>q. WorkQueue_new dflt mapper reducer data_initializer num_threads = Inr q \<and>
           m_num_threads q = num_threads \<and>
           length (m_states q) = num_threads \<and>
           (\<forall>i<num_threads.
              m_states q ! i = WorkerState_new dflt i (data_initializer i) \<and>
              m_wid (m_states q ! i) = i \<and>
              m_data (m_states q ! i) = data_initializer i \<and>
              m_queue (m_states q ! i) = [])))"
proof (cases "1 \<le> num_threads")
  case True
  obtain q where q: "WorkQueue_new dflt mapper reducer data_initializer num_threads = Inr q"
    using True by (simp add: WorkQueue_new_def)
  have st: "m_states q = map (\<lambda>i. WorkerState_new dflt i (data_initializer i)) [0..<num_threads]"
    using q by (rule WorkQueue_new_states)
  have n: "m_num_threads q = num_threads"
    using q True by (auto simp: WorkQueue_new_def)
  show ?thesis
    using True q n st by (simp add: WorkerState_new_def)
next
  case False
  then show ?thesis by (simp add: WorkQueue_new_def)
qed

theorem C8_constructor_witness:
  "WorkQueue_new (0::int) (\<lambda>w d t. (t, d)) (+) (\<lambda>i. i * 10) 0
      = (Inl AssertionFailure :: error + (int, nat, int) WorkQueue) \<and>
   (\<exists>q. WorkQueue_new (0::int) (\<lambda>w d t. (t, d)) (+) (\<lambda>i. i * 10) 2
          = Inr (q :: (int, nat, int) WorkQueue) \<and>
        length (m_states q) = 2 \<and> m_data (m_states q ! 1) = 10)"
proof -
  note th0 = C8_constructor [of 0 "0::int" "\<lambda>w d t. (t, d)" "(+)" "\<lambda>i. i * 10"]
  note th2 = C8_constructor [of 2 "0::int" "\<lambda>w d t. (t, d)" "(+)" "\<lambda>i. i * 10"]
  have a: "WorkQueue_new (0::int) (\<lambda>w d t. (t, d)) (+) (\<lambda>i. i * 10) 0
      = (Inl AssertionFailure :: error + (int, nat, int) WorkQueue)"
    using th0 by simp
  have b: "\<exists>q. WorkQueue_new (0::int) (\<lambda>w d t. (t, d)) (+) (\<lambda>i. i * 10) 2
          = Inr (q :: (int, nat, int) WorkQueue) \<and>
        length (m_states q) = 2 \<and> m_data (m_states q ! 1) = 10"
    using th2 by (auto simp: WorkerState_new_def)
  from a b show ?thesis by (intro conjI)
qed


subsection \<open>create_permutation\<close>

lemma find_index_Some:
  "find_index P xs = Some k \<Longrightarrow> k < length xs \<and> P (xs ! k)"
  by (induction xs arbitrary: k) (auto split: if_splits)

lemma find_index_None: "find_index P xs = None \<Longrightarrow> \<forall>x\<in>set xs. \<not> P x"
  by (induction xs) (auto split: if_splits)

lemma mset_iter_swap:
  "a < length xs \<Longrightarrow> b < length xs \<Longrightarrow> mset (iter_swap xs a b) = mset xs"
  by (simp add: iter_swap_def mset_swap)

lemma iter_swap_front: "k < length xs \<Longrightarrow> iter_swap xs 0 k ! 0 = xs ! k"
proof (cases "k = 0")
  case True
  then show ?thesis by (simp add: iter_swap_def)
next
  case False
  assume "k < length xs"
  then have "0 < length xs" by arith
  with False show ?thesis by (simp add: iter_swap_def)
qed

lemma create_permutation_perm:
  assumes shuffle: "mset (shuffle [0..num - 1]) = mset [0..num - 1]"
    and num: "1 \<le> num"
    and idx: "int thread_idx < num"
  shows "\<exists>p. create_permutation shuffle num thread_idx = Inr p \<and>
             mset p = mset [0..num - 1] \<and>
             set p = {0..num - 1} \<and> distinct p \<and> length p = nat num \<and>
             p ! 0 = int thread_idx \<and> hd p = int thread_idx"
proof -
  let ?sh = "shuffle [0..num - 1]"
  have set_sh: "set ?sh = {0..num - 1}"
    using shuffle by (metis mset_eq_setD set_upto)
  have "int thread_idx \<in> set ?sh"
    using set_sh idx by simp
  then obtain k where k: "find_index (\<lambda>e. e = int thread_idx) ?sh = Some k"
    using find_index_None [of "\<lambda>e. e = int thread_idx" ?sh] by (cases "find_index (\<lambda>e. e = int thread_idx) ?sh") auto
  then have klen: "k < length ?sh" and kval: "?sh ! k = int thread_idx"
    using find_index_Some [OF k] by simp_all
  let ?p = "iter_swap ?sh 0 k"
  have res: "create_permutation shuffle num thread_idx = Inr ?p"
    using num k by (simp add: create_permutation_def)
  have m: "mset ?p = mset [0..num - 1]"
  proof -
    have "0 < length ?sh"
      using klen by arith
    then have "mset ?p = mset ?sh"
      using klen by (rule mset_iter_swap)
    then show ?thesis
      using shuffle by simp
  qed
  have s: "set ?p = {0..num - 1}"
    using m by (metis mset_eq_setD set_upto)
  have d: "distinct ?p"
  proof -
    have "distinct ?p \<longleftrightarrow> distinct [0..num - 1]"
      using m by (rule mset_eq_imp_distinct_iff)
    then show ?thesis
      by simp
  qed
  have l: "length ?p = nat num"
  proof -
    have "length ?p = length [0..num - 1]"
      using m by (rule mset_eq_length)
    then show ?thesis
      by simp
  qed
  have f: "?p ! 0 = int thread_idx"
    using klen kval by (simp add: iter_swap_front)
  have "?p \<noteq> []"
    using l num by auto
  then have h: "hd ?p = int thread_idx"
    using f by (simp add: hd_conv_nth)
  from res m s d l f h show ?thesis
    by blast
qed

text \<open>
  Claim C7. For \<open>num \<ge> 1\<close> and \<open>thread_idx < num\<close>, whatever permutation the shuffle
  produced, \<open>create_permutation\<close> returns a permutation of the worker indices
  \<open>0, \<dots>, num - 1\<close> whose first element is \<open>thread_idx\<close>.
\<close>

theorem C7_create_permutation:
  assumes "mset (shuffle [0..num - 1]) = mset [0..num - 1]"
    and "1 \<le> num"
    and "int thread_idx < num"
  shows "\<exists>p. create_permutation shuffle num thread_idx = Inr p \<and>
             mset p = mset [0..num - 1] \<and>
             set p = {0..num - 1} \<and> distinct p \<and> length p = nat num \<and>
             p ! 0 = int thread_idx \<and> hd p = int thread_idx"
  using assms by (rule create_permutation_perm)

theorem C7_create_permutation_witness:
  "create_permutation rev 4 2 = Inr [2, 3, 1, 0] \<and>
   mset [2, 3, 1, 0] = mset [0..(4::int) - 1] \<and> hd [2, 3, 1, 0::int] = int 2"
proof -
  have sh: "mset (rev [0..(4::int) - 1]) = mset [0..4 - 1]"
    by simp
  have "\<exists>p. create_permutation rev 4 2 = Inr p \<and> mset p = mset [0..(4::int) - 1] \<and>
      set p = {0..4 - 1} \<and> distinct p \<and> length p = nat 4 \<and> p ! 0 = int 2 \<and> hd p = int 2"
    using C7_create_permutation [of rev 4 2, OF sh] by simp
  moreover have "create_permutation rev 4 2 = Inr [2, 3, 1, 0]"
    by (simp add: create_permutation_def iter_swap_def upto.simps)
  ultimately show ?thesis
    by auto
qed

subsection \<open>add_item\<close>
lemma filter_upt_Suc:
  "filter P [0..<Suc k] = filter P [0..<k] @ (if P k then [k] else [])"
  by simp

lemma map_nth_append_upt:
  "map ((!) (xs @ [x])) (filter P [0..<length xs]) = map ((!) xs) (filter P [0..<length xs])"
  by (rule map_cong) (auto simp: nth_append)

lemma add_items_round_robin:
  assumes new: "WorkQueue_new dflt mapper reducer di N = Inr q0"
  shows "m_insert_idx (add_items q0 xs) = length xs mod N \<and>
         m_num_threads (add_items q0 xs) = N \<and>
         length (m_states (add_items q0 xs)) = N \<and>
         (\<forall>j<N. m_queue (m_states (add_items q0 xs) ! j) =
                  map ((!) xs) (filter (\<lambda>t. Suc t mod N = j) [0..<length xs]))"
proof (induction xs rule: rev_induct)
  case Nil
  have N: "1 \<le> N"
    using new by (auto simp: WorkQueue_new_def split: if_splits)
  have "m_states q0 = map (\<lambda>i. WorkerState_new dflt i (di i)) [0..<N]"
    using new by (rule WorkQueue_new_states)
  moreover have "m_insert_idx q0 = 0" "m_num_threads q0 = N"
    using new by (auto simp: WorkQueue_new_def split: if_splits)
  ultimately show ?case
    by (simp add: add_items_def WorkerState_new_def)
next
  case (snoc x xs)
  let ?q = "add_items q0 xs"
  let ?k = "length xs"
  have N: "1 \<le> N"
    using new by (auto simp: WorkQueue_new_def split: if_splits)
  have step: "add_items q0 (xs @ [x]) = add_item ?q x"
    by (simp add: add_items_def)
  have idx: "(m_insert_idx ?q + 1) mod m_num_threads ?q = Suc ?k mod N"
    using snoc.IH by (simp add: mod_Suc_eq)
  have lt: "Suc ?k mod N < N"
    using N by simp
  have q: "\<forall>j<N. m_queue (m_states (add_item ?q x) ! j) =
      map ((!) (xs @ [x])) (filter (\<lambda>t. Suc t mod N = j) [0..<length (xs @ [x])])"
  proof (intro allI impI)
    fix j assume j: "j < N"
    have old: "m_queue (m_states ?q ! j) =
        map ((!) xs) (filter (\<lambda>t. Suc t mod N = j) [0..<?k])"
      using snoc.IH j by simp
    show "m_queue (m_states (add_item ?q x) ! j) =
      map ((!) (xs @ [x])) (filter (\<lambda>t. Suc t mod N = j) [0..<length (xs @ [x])])"
    proof (cases "Suc ?k mod N = j")
      case True
      have "m_queue (m_states (add_item ?q x) ! j) = m_queue (m_states ?q ! j) @ [x]"
        using True j snoc.IH idx
        by (simp add: add_item_def Let_def push_task_def)
      then show ?thesis
        using True old by (simp add: map_nth_append_upt)
    next
      case False
      have "m_queue (m_states (add_item ?q x) ! j) = m_queue (m_states ?q ! j)"
        using False j snoc.IH idx
        by (simp add: add_item_def Let_def)
      then show ?thesis
        using False old by (simp add: map_nth_append_upt)
    qed
  qed
  have "m_insert_idx (add_item ?q x) = length (xs @ [x]) mod N"
    using idx by (simp add: add_item_def Let_def)
  moreover have "m_num_threads (add_item ?q x) = N"
    using snoc.IH by (simp add: add_item_def Let_def)
  moreover have "length (m_states (add_item ?q x)) = N"
    using snoc.IH by (simp add: add_item_def Let_def)
  ultimately show ?case
    using q step by simp
qed

lemma round_robin_count:
  assumes "1 \<le> N"
  shows "length (filter (\<lambda>t. Suc t mod N = j) [0..<k]) \<le> (k + N - 1) div N"
proof (cases "k = 0")
  case True
  then show ?thesis by simp
next
  case False
  let ?A = "{t. t < k \<and> Suc t mod N = j}"
  have len: "length (filter (\<lambda>t. Suc t mod N = j) [0..<k]) = card ?A"
  proof -
    have "distinct (filter (\<lambda>t. Suc t mod N = j) [0..<k])"
      by simp
    then have "length (filter (\<lambda>t. Suc t mod N = j) [0..<k]) =
        card (set (filter (\<lambda>t. Suc t mod N = j) [0..<k]))"
      by (simp only: distinct_card)
    moreover have "set (filter (\<lambda>t. Suc t mod N = j) [0..<k]) = ?A"
      by auto
    ultimately show ?thesis by simp
  qed
  have inj: "inj_on (\<lambda>t. t div N) ?A"
  proof (rule inj_onI)
    fix s t assume s: "s \<in> ?A" and t: "t \<in> ?A" and eq: "s div N = t div N"
    have "Suc s mod N = Suc t mod N"
      using s t by simp
    then have "s mod N = t mod N"
      by (metis Zero_not_Suc mod_Suc nat.inject)
    then show "s = t"
      using eq by (metis div_mult_mod_eq)
  qed
  have img: "(\<lambda>t. t div N) ` ?A \<subseteq> {0..(k - 1) div N}"
  proof
    fix d assume "d \<in> (\<lambda>t. t div N) ` ?A"
    then obtain t where "t < k" and d: "d = t div N"
      by auto
    then have "t \<le> k - 1"
      by arith
    then have "t div N \<le> (k - 1) div N"
      by (rule div_le_mono)
    with d show "d \<in> {0..(k - 1) div N}"
      by simp
  qed
  have "card ?A = card ((\<lambda>t. t div N) ` ?A)"
    using inj by (simp add: card_image)
  also have "\<dots> \<le> card {0..(k - 1) div N}"
    using img by (intro card_mono) simp_all
  also have "\<dots> = (k - 1) div N + 1"
    by simp
  also have "\<dots> = (k + N - 1) div N"
  proof -
    have "k + N - 1 = (k - 1) + N"
      using False by simp
    then show ?thesis
      using assms by (simp only: div_add_self2)
  qed
  finally show ?thesis
    using len by simp
qed


text \<open>
  Claim C6. On a new queue with \<open>N\<close> workers, each call of \<open>add_item\<close> advances the
  insertion index by one modulo \<open>N\<close> and appends its item to the queue of the worker
  the new index names, so the call number \<open>t\<close> (counted from \<open>0\<close>) feeds worker
  \<open>(t + 1) mod N\<close>; after \<open>k\<close> calls no queue holds more than \<open>\<lceil>k / N\<rceil>\<close> items.
\<close>

theorem C6_add_item_round_robin:
  assumes new: "WorkQueue_new dflt mapper reducer di N = Inr q0"
  shows "m_insert_idx (add_items q0 xs) = length xs mod N \<and>
         m_insert_idx (add_items q0 (xs @ [x])) = (m_insert_idx (add_items q0 xs) + 1) mod N \<and>
         m_queue (m_states (add_items q0 (xs @ [x])) ! (Suc (length xs) mod N)) =
           m_queue (m_states (add_items q0 xs) ! (Suc (length xs) mod N)) @ [x] \<and>
         (\<forall>j<N. m_queue (m_states (add_items q0 xs) ! j) =
                  map ((!) xs) (filter (\<lambda>t. Suc t mod N = j) [0..<length xs])) \<and>
         (\<forall>j<N. length (m_queue (m_states (add_items q0 xs) ! j))
                  \<le> (length xs + N - 1) div N)"
proof -
  have N: "1 \<le> N"
    using new by (auto simp: WorkQueue_new_def split: if_splits)
  note rr = add_items_round_robin [OF new, of xs]
  note rr' = add_items_round_robin [OF new, of "xs @ [x]"]
  have idx: "m_insert_idx (add_items q0 xs) = length xs mod N"
    using rr by simp
  have idx': "m_insert_idx (add_items q0 (xs @ [x])) = (m_insert_idx (add_items q0 xs) + 1) mod N"
    using rr rr' by (simp add: mod_Suc_eq)
  have queues: "\<forall>j<N. m_queue (m_states (add_items q0 xs) ! j) =
      map ((!) xs) (filter (\<lambda>t. Suc t mod N = j) [0..<length xs])"
    using rr by simp
  have lt: "Suc (length xs) mod N < N"
    using N by simp
  have "m_queue (m_states (add_items q0 (xs @ [x])) ! (Suc (length xs) mod N)) =
      map ((!) (xs @ [x]))
        (filter (\<lambda>t. Suc t mod N = Suc (length xs) mod N) [0..<length (xs @ [x])])"
    using rr' lt by blast
  also have "\<dots> = map ((!) xs)
        (filter (\<lambda>t. Suc t mod N = Suc (length xs) mod N) [0..<length xs]) @ [x]"
    by (simp add: map_nth_append_upt)
  also have "\<dots> = m_queue (m_states (add_items q0 xs) ! (Suc (length xs) mod N)) @ [x]"
    using queues lt by simp
  finally have appended:
    "m_queue (m_states (add_items q0 (xs @ [x])) ! (Suc (length xs) mod N)) =
       m_queue (m_states (add_items q0 xs) ! (Suc (length xs) mod N)) @ [x]" .
  have bound: "\<forall>j<N. length (m_queue (m_states (add_items q0 xs) ! j))
      \<le> (length xs + N - 1) div N"
    using queues round_robin_count [OF N] by simp
  from idx idx' appended queues bound show ?thesis
    by (intro conjI)
qed

theorem C6_add_item_round_robin_witness:
  "m_queue (m_states (add_items
      \<lparr>m_mapper = (\<lambda>w d t. (t, d)), m_reducer = (+),
       m_states = [WorkerState_new (0::int) 0 (), WorkerState_new 0 1 (),
                   WorkerState_new 0 2 ()],
       m_num_threads = 3, m_insert_idx = 0\<rparr>
      [10, 20, 30, 40::int]) ! 0) = [30] \<and>
   m_queue (m_states (add_items
      \<lparr>m_mapper = (\<lambda>w d t. (t, d)), m_reducer = (+),
       m_states = [WorkerState_new (0::int) 0 (), WorkerState_new 0 1 (),
                   WorkerState_new 0 2 ()],
       m_num_threads = 3, m_insert_idx = 0\<rparr>
      [10, 20, 30, 40::int]) ! 1) = [10, 40] \<and>
   m_queue (m_states (add_items
      \<lparr>m_mapper = (\<lambda>w d t. (t, d)), m_reducer = (+),
       m_states = [WorkerState_new (0::int) 0 (), WorkerState_new 0 1 (),
                   WorkerState_new 0 2 ()],
       m_num_threads = 3, m_insert_idx = 0\<rparr>
      [10, 20, 30, 40::int]) ! 2) = [20]"
proof -
  let ?q0 = "\<lparr>m_mapper = (\<lambda>w d t. (t, d)), m_reducer = (+),
       m_states = [WorkerState_new (0::int) 0 (), WorkerState_new 0 1 (),
                   WorkerState_new 0 2 ()],
       m_num_threads = 3, m_insert_idx = 0\<rparr> :: (int, unit, int) WorkQueue"
  have new: "WorkQueue_new (0::int) (\<lambda>w d t. (t, d)) (+) (\<lambda>i. ()) 3 = Inr ?q0"
    by (simp add: WorkQueue_new_def upt_rec numeral_2_eq_2)
  note th = C6_add_item_round_robin [OF new, of "[10, 20, 30, 40]" 50]
  have q0: "m_queue (m_states (add_items ?q0 [10, 20, 30, 40]) ! 0) = [30]"
    using th by (simp add: upt_rec)
  have q1: "m_queue (m_states (add_items ?q0 [10, 20, 30, 40]) ! 1) = [10, 40]"
    using th by (simp add: upt_rec)
  have q2: "m_queue (m_states (add_items ?q0 [10, 20, 30, 40]) ! 2) = [20]"
    using th by (simp add: upt_rec)
  from q0 q1 q2 show ?thesis
    by (intro conjI)
qed

section \<open>Properties of run_all\<close>

subsection \<open>The waiting tasks\<close>

lemma size_t_to_int_small: "n < 2 ^ 31 \<Longrightarrow> size_t_to_int n = int n"
proof -
  assume n: "n < 2 ^ 31"
  have "int n < 2 ^ 31"
    using n by (metis of_nat_less_iff of_nat_numeral of_nat_power)
  then have "(int n + 2 ^ 31) mod 2 ^ 32 = int n + 2 ^ 31"
    by simp
  then show ?thesis
    by (simp add: size_t_to_int_def)
qed

lemma pending_Nil: "pending [] = {#}"
  by (simp add: pending_def)

lemma pending_Cons: "pending (st # sts) = mset (m_queue st) + pending sts"
  by (simp add: pending_def)

lemma pending_update:
  "idx < length sts \<Longrightarrow>
   pending (sts[idx := st']) + mset (m_queue (sts ! idx)) = pending sts + mset (m_queue st')"
proof (induction sts arbitrary: idx)
  case Nil
  then show ?case by simp
next
  case (Cons a sts)
  show ?case
  proof (cases idx)
    case 0
    then show ?thesis by (simp add: pending_Cons)
  next
    case (Suc n)
    then have "n < length sts"
      using Cons.prems by simp
    then have "pending (sts[n := st']) + mset (m_queue (sts ! n)) = pending sts + mset (m_queue st')"
      by (rule Cons.IH)
    then show ?thesis
      using Suc by (simp add: pending_Cons add.assoc)
  qed
qed

lemma pending_same_queue:
  assumes "idx < length sts" "m_queue st' = m_queue (sts ! idx)"
  shows "pending (sts[idx := st']) = pending sts"
  using pending_update [OF assms(1), of st'] assms(2) by simp

lemma pending_pop:
  assumes "idx < length sts" "m_queue (sts ! idx) = t # rest" "m_queue st' = rest"
  shows "pending (sts[idx := st']) + {#t#} = pending sts"
  using pending_update [OF assms(1), of st'] assms(2,3) by simp

lemma pending_empty_iff:
  "pending sts = {#} \<longleftrightarrow> (\<forall>j<length sts. m_queue (sts ! j) = [])"
proof (induction sts)
  case Nil
  then show ?case by (simp add: pending_Nil)
next
  case (Cons a sts)
  show ?case
    by (auto simp: pending_Cons Cons.IH less_Suc_eq_0_disj)
qed

subsection \<open>The steps of a worker, case by case\<close>

lemma worker_step_out_of_range:
  "\<not> w < length ts \<Longrightarrow> worker_step sh init w (q, ts) = (q, ts)"
  by (simp add: worker_step_def)

lemma worker_step_Start:
  "w < length ts \<Longrightarrow> ts ! w = Start \<Longrightarrow>
   worker_step sh init w (q, ts) =
     (q\<lparr>m_states := (m_states q)[w := (m_states q ! w)\<lparr>m_result := init\<rparr>]\<rparr>,
      ts[w := (case create_permutation (sh w) (size_t_to_int (m_num_threads q)) w of
                 Inl e \<Rightarrow> Crashed e | Inr attempts \<Rightarrow> Probe attempts 0)])"
  by (simp add: worker_step_def)

lemma worker_step_Probe_end:
  "w < length ts \<Longrightarrow> ts ! w = Probe a k \<Longrightarrow> \<not> k < length a \<Longrightarrow>
   worker_step sh init w (q, ts) = (q, ts[w := Done])"
  by (simp add: worker_step_def)

lemma worker_step_Probe_empty:
  "w < length ts \<Longrightarrow> ts ! w = Probe a k \<Longrightarrow> k < length a \<Longrightarrow>
   0 \<le> a ! k \<Longrightarrow> nat (a ! k) < length (m_states q) \<Longrightarrow>
   m_queue (m_states q ! nat (a ! k)) = [] \<Longrightarrow>
   worker_step sh init w (q, ts) = (q, ts[w := Probe a (k + 1)])"
  by (simp add: worker_step_def pop_task_def)

lemma worker_step_Probe_task:
  "w < length ts \<Longrightarrow> ts ! w = Probe a k \<Longrightarrow> k < length a \<Longrightarrow>
   0 \<le> a ! k \<Longrightarrow> nat (a ! k) < length (m_states q) \<Longrightarrow>
   m_queue (m_states q ! nat (a ! k)) = t # rest \<Longrightarrow>
   worker_step sh init w (q, ts) =
     (consume (q\<lparr>m_states := (m_states q)[nat (a ! k) :=
                   (m_states q ! nat (a ! k))\<lparr>m_queue := rest\<rparr>]\<rparr>) w t,
      ts[w := Probe a 0])"
  by (simp add: worker_step_def pop_task_def Let_def)

lemma worker_step_Done:
  "w < length ts \<Longrightarrow> ts ! w = Done \<Longrightarrow> worker_step sh init w (q, ts) = (q, ts)"
  by (simp add: worker_step_def)


subsection \<open>The invariant is kept by every step\<close>

text \<open>
  A step of worker \<open>w\<close> changes the result and the data of \<open>w\<close> alone and only ever
  shortens a queue, so what holds of the other threads is kept.
\<close>

lemma thread_ok_frame:
  assumes ok: "thread_ok q0 init q v consumed t"
    and res: "m_result (m_states q' ! v) = m_result (m_states q ! v)"
    and dat: "m_data (m_states q' ! v) = m_data (m_states q ! v)"
    and emp: "\<And>j. m_queue (m_states q ! j) = [] \<Longrightarrow> m_queue (m_states q' ! j) = []"
  shows "thread_ok q0 init q' v consumed t"
  using ok res dat emp
  by (cases t) (simp_all add: thread_ok_def Let_def)

lemma consume_seq_snoc:
  "consume_seq m r wid (acc, d) (xs @ [t]) =
     (case consume_seq m r wid (acc, d) xs of
        (acc', d') \<Rightarrow> (case m wid d' t of (out, d'') \<Rightarrow> (r acc' out, d'')))"
  by (induction xs arbitrary: acc d) (simp_all split: prod.splits)

lemma mset_concat_update_snoc:
  "w < length cs \<Longrightarrow> mset (concat (cs[w := cs ! w @ [t]])) = add_mset t (mset (concat cs))"
proof (induction cs arbitrary: w)
  case Nil
  then show ?case by simp
next
  case (Cons c cs)
  then show ?case by (cases w) simp_all
qed

lemma consume_effect:
  assumes w: "w < length (m_states q)"
  shows "m_mapper (consume q w t) = m_mapper q"
    and "m_reducer (consume q w t) = m_reducer q"
    and "m_num_threads (consume q w t) = m_num_threads q"
    and "length (m_states (consume q w t)) = length (m_states q)"
    and "m_wid (m_states (consume q w t) ! v) = m_wid (m_states q ! v)"
    and "m_queue (m_states (consume q w t) ! v) = m_queue (m_states q ! v)"
    and "v \<noteq> w \<Longrightarrow> m_states (consume q w t) ! v = m_states q ! v"
    and "(m_result (m_states (consume q w t) ! w), m_data (m_states (consume q w t) ! w)) =
           (case m_mapper q (m_wid (m_states q ! w)) (m_data (m_states q ! w)) t of
              (out, d) \<Rightarrow> (m_reducer q (m_result (m_states q ! w)) out, d))"
    and "pending (m_states (consume q w t)) = pending (m_states q)"
proof -
  show "m_mapper (consume q w t) = m_mapper q"
    by (simp add: consume_def Let_def split: prod.splits)
  show "m_reducer (consume q w t) = m_reducer q"
    by (simp add: consume_def Let_def split: prod.splits)
  show "m_num_threads (consume q w t) = m_num_threads q"
    by (simp add: consume_def Let_def split: prod.splits)
  show "length (m_states (consume q w t)) = length (m_states q)"
    by (simp add: consume_def Let_def split: prod.splits)
  show "m_wid (m_states (consume q w t) ! v) = m_wid (m_states q ! v)"
    using w by (cases "v = w") (simp_all add: consume_def Let_def split: prod.splits)
  show "m_queue (m_states (consume q w t) ! v) = m_queue (m_states q ! v)"
    using w by (cases "v = w") (simp_all add: consume_def Let_def split: prod.splits)
  show "v \<noteq> w \<Longrightarrow> m_states (consume q w t) ! v = m_states q ! v"
    by (simp add: consume_def Let_def split: prod.splits)
  show "(m_result (m_states (consume q w t) ! w), m_data (m_states (consume q w t) ! w)) =
           (case m_mapper q (m_wid (m_states q ! w)) (m_data (m_states q ! w)) t of
              (out, d) \<Rightarrow> (m_reducer q (m_result (m_states q ! w)) out, d))"
    using w by (simp add: consume_def Let_def split: prod.splits)
  show "pending (m_states (consume q w t)) = pending (m_states q)"
    using w by (simp add: consume_def Let_def pending_same_queue split: prod.splits)
qed


lemma run_invI:
  assumes "m_mapper q = m_mapper q0" "m_reducer q = m_reducer q0"
    and "m_num_threads q = m_num_threads q0"
    and "length (m_states q) = m_num_threads q0"
    and "length ts = m_num_threads q0" "length cs = m_num_threads q0"
    and "pending (m_states q) + mset (concat cs) = pending (m_states q0)"
    and "\<And>v. v < m_num_threads q0 \<Longrightarrow> m_wid (m_states q ! v) = m_wid (m_states q0 ! v)"
    and "\<And>v. v < m_num_threads q0 \<Longrightarrow> thread_ok q0 init q v (cs ! v) (ts ! v)"
    and "m_num_threads q0 = 1 \<Longrightarrow>
           cs ! 0 @ m_queue (m_states q ! 0) = m_queue (m_states q0 ! 0)"
  shows "run_inv q0 init cs (q, ts)"
  using assms by (simp add: run_inv_def Let_def)

lemma run_invD:
  assumes "run_inv q0 init cs (q, ts)"
  shows "m_mapper q = m_mapper q0" "m_reducer q = m_reducer q0"
    and "m_num_threads q = m_num_threads q0"
    and "length (m_states q) = m_num_threads q0"
    and "length ts = m_num_threads q0" "length cs = m_num_threads q0"
    and "pending (m_states q) + mset (concat cs) = pending (m_states q0)"
    and "\<And>v. v < m_num_threads q0 \<Longrightarrow> m_wid (m_states q ! v) = m_wid (m_states q0 ! v)"
    and "\<And>v. v < m_num_threads q0 \<Longrightarrow> thread_ok q0 init q v (cs ! v) (ts ! v)"
    and "m_num_threads q0 = 1 \<Longrightarrow>
           cs ! 0 @ m_queue (m_states q ! 0) = m_queue (m_states q0 ! 0)"
  using assms by (simp_all add: run_inv_def Let_def)

lemma perm_index:
  assumes a: "mset a = mset [0..int N - 1]" and j: "j < N"
  shows "\<exists>i<length a. a ! i = int j"
proof -
  have "set a = {0..int N - 1}"
    using a by (metis mset_eq_setD set_upto)
  then have "int j \<in> set a"
    using j by simp
  then show ?thesis
    by (simp add: in_set_conv_nth)
qed

lemma perm_range:
  assumes a: "mset a = mset [0..int N - 1]" and k: "k < length a"
  shows "0 \<le> a ! k \<and> nat (a ! k) < N"
proof -
  have "set a = {0..int N - 1}"
    using a by (metis mset_eq_setD set_upto)
  moreover have "a ! k \<in> set a"
    using k by simp
  ultimately have "0 \<le> a ! k \<and> a ! k \<le> int N - 1"
    by simp
  then show ?thesis
    by auto
qed

lemma run_inv_step:
  assumes inv: "run_inv q0 init cs c"
    and N31: "m_num_threads q0 < 2 ^ 31"
    and perm: "\<And>v. v < m_num_threads q0 \<Longrightarrow>
        mset (sh v [0..int (m_num_threads q0) - 1]) = mset [0..int (m_num_threads q0) - 1]"
  shows "\<exists>cs'. run_inv q0 init cs' (worker_step sh init w c)"
proof -
  let ?N = "m_num_threads q0"
  obtain q ts where c: "c = (q, ts)"
    by (cases c)
  note I = run_invD [OF inv [unfolded c]]
  show ?thesis
  proof (cases "w < ?N")
    case False
    then have "worker_step sh init w c = c"
      using I(5) c by (simp add: worker_step_out_of_range)
    then show ?thesis
      using inv by auto
  next
    case True
    note wN = True
    have wts: "w < length ts" and wst: "w < length (m_states q)"
      using True I(4,5) by simp_all
    note ok_w = I(9) [OF True]
    show ?thesis
    proof (cases "ts ! w")
      case Start
      have cs_w: "cs ! w = []" and dat_w: "m_data (m_states q ! w) = m_data (m_states q0 ! w)"
        using ok_w Start by (simp_all add: thread_ok_def Let_def)
      have "1 \<le> int ?N" and "int w < int ?N"
        using True by simp_all
      then obtain a where a: "create_permutation (sh w) (int ?N) w = Inr a"
        and ma: "mset a = mset [0..int ?N - 1]"
        using create_permutation_perm [of "sh w" "int ?N" w] perm [OF wN] by blast
      let ?q' = "q\<lparr>m_states := (m_states q)[w := (m_states q ! w)\<lparr>m_result := init\<rparr>]\<rparr>"
      let ?ts' = "ts[w := Probe a 0]"
      have step: "worker_step sh init w c = (?q', ?ts')"
        using wts Start a N31 I(3) c
        by (simp add: worker_step_Start size_t_to_int_small)
      have "run_inv q0 init cs (?q', ?ts')"
      proof (rule run_invI)
        show "pending (m_states ?q') + mset (concat cs) = pending (m_states q0)"
          using I(7) wst by (simp add: pending_same_queue)
        show "m_wid (m_states ?q' ! v) = m_wid (m_states q0 ! v)" if "v < ?N" for v
          using I(8) [OF that] wst by (cases "v = w") simp_all
        show "cs ! 0 @ m_queue (m_states ?q' ! 0) = m_queue (m_states q0 ! 0)" if "?N = 1"
          using I(10) [OF that] wst by (cases "w = 0") simp_all
        show "thread_ok q0 init ?q' v (cs ! v) (?ts' ! v)" if v: "v < ?N" for v
        proof (cases "v = w")
          case True
          then show ?thesis
            using wts wst cs_w dat_w ma
            by (simp add: thread_ok_def Let_def)
        next
          case False
          have "thread_ok q0 init ?q' v (cs ! v) (ts ! v)"
          proof (rule thread_ok_frame [OF I(9) [OF v]])
            show "m_result (m_states ?q' ! v) = m_result (m_states q ! v)"
              using False by simp
            show "m_data (m_states ?q' ! v) = m_data (m_states q ! v)"
              using False by simp
            show "m_queue (m_states ?q' ! j) = []" if "m_queue (m_states q ! j) = []" for j
              using that wst by (cases "j = w") simp_all
          qed
          then show ?thesis
            using False by simp
        qed
      qed (use I in simp_all)
      then show ?thesis
        using step by auto
    next
      case (Probe a k)
      have folded: "(m_result (m_states q ! w), m_data (m_states q ! w)) =
          consume_seq (m_mapper q0) (m_reducer q0) (m_wid (m_states q0 ! w))
            (init, m_data (m_states q0 ! w)) (cs ! w)"
        and ma: "mset a = mset [0..int ?N - 1]"
        and kle: "k \<le> length a"
        and emp: "\<forall>j<k. m_queue (m_states q ! nat (a ! j)) = []"
        using ok_w Probe by (simp_all add: thread_ok_def Let_def)
      show ?thesis
      proof (cases "k < length a")
        case False
        have step: "worker_step sh init w c = (q, ts[w := Done])"
          using wts Probe False c by (simp add: worker_step_Probe_end)
        have all_empty: "\<forall>j<?N. m_queue (m_states q ! j) = []"
        proof (intro allI impI)
          fix j assume "j < ?N"
          then obtain i where "i < length a" "a ! i = int j"
            using perm_index [OF ma] by blast
          then show "m_queue (m_states q ! j) = []"
            using emp False kle by (metis le_antisym nat_int not_le_imp_less)
        qed
        have "run_inv q0 init cs (q, ts[w := Done])"
        proof (rule run_invI)
          show "thread_ok q0 init q v (cs ! v) (ts[w := Done] ! v)" if v: "v < ?N" for v
          proof (cases "v = w")
            case True
            then show ?thesis
              using wts folded all_empty by (simp add: thread_ok_def Let_def)
          next
            case False
            then show ?thesis
              using I(9) [OF v] by simp
          qed
        qed (use I in simp_all)
        then show ?thesis
          using step by auto
      next
        case True
        note klt = True
        have rng: "0 \<le> a ! k" "nat (a ! k) < length (m_states q)"
          using perm_range [OF ma klt] I(4) by simp_all
        let ?idx = "nat (a ! k)"
        show ?thesis
        proof (cases "m_queue (m_states q ! ?idx)")
          case Nil
          have step: "worker_step sh init w c = (q, ts[w := Probe a (k + 1)])"
            using wts Probe klt rng Nil c by (simp add: worker_step_Probe_empty)
          have "run_inv q0 init cs (q, ts[w := Probe a (k + 1)])"
          proof (rule run_invI)
            show "thread_ok q0 init q v (cs ! v) (ts[w := Probe a (k + 1)] ! v)"
              if v: "v < ?N" for v
            proof (cases "v = w")
              case True
              then show ?thesis
                using wts folded ma klt emp Nil
                by (simp add: thread_ok_def Let_def less_Suc_eq)
            next
              case False
              then show ?thesis
                using I(9) [OF v] by simp
            qed
          qed (use I in simp_all)
          then show ?thesis
            using step by auto
        next
          case (Cons t rest)
          let ?qp = "q\<lparr>m_states := (m_states q)[?idx := (m_states q ! ?idx)\<lparr>m_queue := rest\<rparr>]\<rparr>"
          let ?q' = "consume ?qp w t"
          let ?cs' = "cs[w := cs ! w @ [t]]"
          have step: "worker_step sh init w c = (?q', ts[w := Probe a 0])"
            using wts Probe klt rng Cons c by (simp add: worker_step_Probe_task)
          have wqp: "w < length (m_states ?qp)"
            using wst by simp
          note E = consume_effect [OF wqp, where t = t]
          have qp_w: "m_wid (m_states ?qp ! v) = m_wid (m_states q ! v)"
                     "m_data (m_states ?qp ! v) = m_data (m_states q ! v)"
                     "m_result (m_states ?qp ! v) = m_result (m_states q ! v)" for v
            using rng by (cases "v = ?idx"; simp)+
          have qp_empty: "m_queue (m_states ?qp ! j) = []" if "m_queue (m_states q ! j) = []" for j
            using that rng Cons by (cases "j = ?idx") simp_all
          have pend: "pending (m_states ?qp) + {#t#} = pending (m_states q)"
            using pending_pop [OF rng(2) Cons, of "(m_states q ! ?idx)\<lparr>m_queue := rest\<rparr>"]
            by simp
          have "run_inv q0 init ?cs' (?q', ts[w := Probe a 0])"
          proof (rule run_invI)
            show "m_mapper ?q' = m_mapper q0" "m_reducer ?q' = m_reducer q0"
              "m_num_threads ?q' = ?N" "length (m_states ?q') = ?N"
              using E(1-4) I(1-4) by simp_all
            show "length (ts[w := Probe a 0]) = ?N" "length ?cs' = ?N"
              using I(5,6) by simp_all
            have "pending (m_states ?q') + mset (concat ?cs') =
                pending (m_states ?qp) + add_mset t (mset (concat cs))"
              using E(9) wN I(6) by (simp add: mset_concat_update_snoc)
            also have "\<dots> = pending (m_states q) + mset (concat cs)"
              by (simp flip: pend)
            finally show "pending (m_states ?q') + mset (concat ?cs') = pending (m_states q0)"
              using I(7) by simp
            show "m_wid (m_states ?q' ! v) = m_wid (m_states q0 ! v)" if "v < ?N" for v
              using E(5) [of v] qp_w(1) [of v] I(8) [OF that] by simp
            show "?cs' ! 0 @ m_queue (m_states ?q' ! 0) = m_queue (m_states q0 ! 0)"
              if one: "?N = 1"
            proof -
              have w0: "w = 0" and idx0: "?idx = 0"
                using one wN rng I(4) by simp_all
              have "m_queue (m_states ?q' ! 0) = rest"
                using E(6) [of 0] idx0 rng by simp
              moreover have "?cs' ! 0 = cs ! 0 @ [t]"
                using w0 I(6) one by simp
              moreover have "cs ! 0 @ t # rest = m_queue (m_states q0 ! 0)"
                using I(10) [OF one] Cons idx0 by simp
              ultimately show ?thesis
                by simp
            qed
            show "thread_ok q0 init ?q' v (?cs' ! v) (ts[w := Probe a 0] ! v)"
              if v: "v < ?N" for v
            proof (cases "v = w")
              case True
              have "(m_result (m_states ?q' ! w), m_data (m_states ?q' ! w)) =
                  (case m_mapper q0 (m_wid (m_states q0 ! w)) (m_data (m_states q ! w)) t of
                     (out, d) \<Rightarrow> (m_reducer q0 (m_result (m_states q ! w)) out, d))"
                using E(8) qp_w [of w] I(1,2) I(8) [OF \<open>w < ?N\<close>] by simp
              also have "\<dots> = consume_seq (m_mapper q0) (m_reducer q0) (m_wid (m_states q0 ! w))
                  (init, m_data (m_states q0 ! w)) (cs ! w @ [t])"
                using folded [symmetric] by (simp add: consume_seq_snoc)
              finally show ?thesis
                using True wts ma I(6) \<open>w < ?N\<close>
                by (simp add: thread_ok_def Let_def)
            next
              case False
              have "thread_ok q0 init ?q' v (cs ! v) (ts ! v)"
              proof (rule thread_ok_frame [OF I(9) [OF v]])
                show "m_result (m_states ?q' ! v) = m_result (m_states q ! v)"
                  using E(7) [OF False] qp_w(3) [of v] by simp
                show "m_data (m_states ?q' ! v) = m_data (m_states q ! v)"
                  using E(7) [OF False] qp_w(2) [of v] by simp
                show "m_queue (m_states ?q' ! j) = []" if "m_queue (m_states q ! j) = []" for j
                  using E(6) [of j] qp_empty [OF that] by simp
              qed
              then show ?thesis
                using False by simp
            qed
          qed
          then show ?thesis
            using step by auto
        qed
      qed
    next
      case Done
      then have "worker_step sh init w c = c"
        using wts c by (simp add: worker_step_Done)
      then show ?thesis
        using inv by auto
    next
      case (Crashed e)
      then show ?thesis
        using ok_w by (simp add: thread_ok_def Let_def)
    qed
  qed
qed


subsection \<open>Runs\<close>

lemma run_workers_Nil: "run_workers sh init [] c = c"
  by (simp add: run_workers_def)

lemma run_workers_Cons:
  "run_workers sh init (w # sched) c = run_workers sh init sched (worker_step sh init w c)"
  by (simp add: run_workers_def)

lemma run_workers_append:
  "run_workers sh init (s1 @ s2) c = run_workers sh init s2 (run_workers sh init s1 c)"
  by (simp add: run_workers_def)

lemma run_inv_run:
  assumes inv: "run_inv q0 init cs c"
    and N31: "m_num_threads q0 < 2 ^ 31"
    and perm: "\<And>v. v < m_num_threads q0 \<Longrightarrow>
        mset (sh v [0..int (m_num_threads q0) - 1]) = mset [0..int (m_num_threads q0) - 1]"
  shows "\<exists>cs'. run_inv q0 init cs' (run_workers sh init sched c)"
  using inv
proof (induction sched arbitrary: cs c)
  case Nil
  then show ?case
    by (auto simp: run_workers_Nil)
next
  case (Cons w sched)
  obtain cs1 where "run_inv q0 init cs1 (worker_step sh init w c)"
    using run_inv_step [where sh = sh, OF Cons.prems N31 perm] by blast
  then show ?case
    using Cons.IH by (simp add: run_workers_Cons)
qed

lemma run_inv_initial:
  assumes "length (m_states q) = m_num_threads q"
  shows "run_inv q init (replicate (m_num_threads q) [])
           (q, replicate (m_num_threads q) Start)"
proof (rule run_invI)
  show "pending (m_states q) + mset (concat (replicate (m_num_threads q) [])) =
      pending (m_states q)"
    by simp
  show "thread_ok q init q v (replicate (m_num_threads q) [] ! v)
      (replicate (m_num_threads q) Start ! v)" if "v < m_num_threads q" for v
    using that by (simp add: thread_ok_def Let_def)
  show "replicate (m_num_threads q) [] ! 0 @ m_queue (m_states q ! 0) = m_queue (m_states q ! 0)"
    if "m_num_threads q = 1"
    using that by simp
qed (use assms in simp_all)

lemma run_all_SomeD:
  assumes "run_all sh sched q init = Some (r, q')"
  shows "\<exists>ts. run_workers sh init sched (q, replicate (m_num_threads q) Start) = (q', ts) \<and>
              list_all (\<lambda>t. t = Done) ts \<and>
              r = foldl (m_reducer q') init (map m_result (m_states q'))"
proof -
  obtain q1 ts where c: "run_workers sh init sched (q, replicate (m_num_threads q) Start) = (q1, ts)"
    by (cases "run_workers sh init sched (q, replicate (m_num_threads q) Start)")
  then show ?thesis
    using assms by (auto simp: run_all_def Let_def split: if_splits)
qed

lemma run_all_structure:
  assumes len: "length (m_states q) = m_num_threads q"
    and N1: "1 \<le> m_num_threads q"
    and N31: "m_num_threads q < 2 ^ 31"
    and perm: "\<And>v. v < m_num_threads q \<Longrightarrow>
        mset (sh v [0..int (m_num_threads q) - 1]) = mset [0..int (m_num_threads q) - 1]"
    and run: "run_all sh sched q init = Some (r, q')"
  shows "\<exists>cs. length cs = m_num_threads q \<and>
              mset (concat cs) = pending (m_states q) \<and>
              length (m_states q') = m_num_threads q \<and>
              (\<forall>w<m_num_threads q.
                 (m_result (m_states q' ! w), m_data (m_states q' ! w)) =
                   consume_seq (m_mapper q) (m_reducer q) (m_wid (m_states q ! w))
                     (init, m_data (m_states q ! w)) (cs ! w) \<and>
                 m_queue (m_states q' ! w) = []) \<and>
              (m_num_threads q = 1 \<longrightarrow> cs ! 0 = m_queue (m_states q ! 0)) \<and>
              r = foldl (m_reducer q) init (map m_result (m_states q'))"
proof -
  let ?N = "m_num_threads q"
  obtain ts where c: "run_workers sh init sched (q, replicate ?N Start) = (q', ts)"
    and fin: "list_all (\<lambda>t. t = Done) ts"
    and r: "r = foldl (m_reducer q') init (map m_result (m_states q'))"
    using run_all_SomeD [OF run] by blast
  obtain cs where inv: "run_inv q init cs (q', ts)"
    using run_inv_run [where sh = sh and init = init and sched = sched,
        OF run_inv_initial [OF len] N31 perm] c by auto
  note I = run_invD [OF inv]
  have ts_done: "ts ! w = Done" if "w < ?N" for w
    using fin that I(5) by (simp add: list_all_length)
  have ok: "(m_result (m_states q' ! w), m_data (m_states q' ! w)) =
        consume_seq (m_mapper q) (m_reducer q) (m_wid (m_states q ! w))
          (init, m_data (m_states q ! w)) (cs ! w) \<and>
      (\<forall>j<?N. m_queue (m_states q' ! j) = [])" if "w < ?N" for w
    using I(9) [OF that] ts_done [OF that] by (simp add: thread_ok_def Let_def)
  have "0 < ?N"
    using N1 by simp
  then have empty: "\<forall>j<?N. m_queue (m_states q' ! j) = []"
    using ok by blast
  then have "pending (m_states q') = {#}"
    using I(4) by (simp add: pending_empty_iff)
  then have m: "mset (concat cs) = pending (m_states q)"
    using I(7) by simp
  have per_worker: "\<forall>w<?N. (m_result (m_states q' ! w), m_data (m_states q' ! w)) =
        consume_seq (m_mapper q) (m_reducer q) (m_wid (m_states q ! w))
          (init, m_data (m_states q ! w)) (cs ! w) \<and>
      m_queue (m_states q' ! w) = []"
    using ok empty by blast
  have r': "r = foldl (m_reducer q) init (map m_result (m_states q'))"
    using r I(2) by simp
  have fifo: "?N = 1 \<longrightarrow> cs ! 0 = m_queue (m_states q ! 0)"
    using I(10) empty by auto
  show ?thesis
    using I(6) m I(4) per_worker fifo r' by (intro exI [of _ cs] conjI)
qed

subsection \<open>Termination\<close>

text \<open>
  A step of a thread that has not returned either consumes a task or, with the tasks
  left as they are, brings the thread closer to its return; a step of another thread
  never takes a thread further from its return. So a thread has returned once it has
  taken as many steps as its fuel, whatever the other threads did in between: every
  schedule that gives each worker that many steps lets \<open>run_all\<close> return, every schedule
  can be continued to one that does, and no thread ever crashes.
\<close>

lemma worker_step_other_thread:
  "v \<noteq> w \<Longrightarrow> snd (worker_step sh init v c) ! w = snd c ! w"
  by (simp add: worker_step_def Let_def split: thread.splits sum.splits prod.splits option.splits)

lemma worker_step_progress:
  assumes inv: "run_inv q0 init cs c"
    and N31: "m_num_threads q0 < 2 ^ 31"
    and perm: "\<And>v. v < m_num_threads q0 \<Longrightarrow>
        mset (sh v [0..int (m_num_threads q0) - 1]) = mset [0..int (m_num_threads q0) - 1]"
    and w: "w < m_num_threads q0"
    and live: "snd c ! w \<noteq> Done"
  shows "(tasks_left (worker_step sh init w c) < tasks_left c \<and>
          thread_weight (m_num_threads q0) (snd (worker_step sh init w c) ! w)
            \<le> m_num_threads q0 + 1) \<or>
         (tasks_left (worker_step sh init w c) = tasks_left c \<and>
          thread_weight (m_num_threads q0) (snd (worker_step sh init w c) ! w)
            < thread_weight (m_num_threads q0) (snd c ! w))"
proof -
  let ?N = "m_num_threads q0"
  obtain q ts where c: "c = (q, ts)"
    by (cases c)
  note I = run_invD [OF inv [unfolded c]]
  have wts: "w < length ts" and wst: "w < length (m_states q)"
    using w I(4,5) by simp_all
  note ok_w = I(9) [OF w]
  show ?thesis
  proof (cases "ts ! w")
    case Start
    have "1 \<le> int ?N" and "int w < int ?N"
      using w by simp_all
    then obtain a where a: "create_permutation (sh w) (int ?N) w = Inr a"
      using create_permutation_perm [of "sh w" "int ?N" w] perm [OF w] by blast
    have step: "worker_step sh init w c =
        (q\<lparr>m_states := (m_states q)[w := (m_states q ! w)\<lparr>m_result := init\<rparr>]\<rparr>,
         ts[w := Probe a 0])"
      using wts Start a N31 I(3) c
      by (simp add: worker_step_Start size_t_to_int_small)
    have "tasks_left (worker_step sh init w c) = tasks_left c"
      using step c wst by (simp add: tasks_left_def pending_same_queue)
    moreover have "thread_weight ?N (snd (worker_step sh init w c) ! w)
        < thread_weight ?N (snd c ! w)"
      using step c wts Start by simp
    ultimately show ?thesis
      by simp
  next
    case (Probe a k)
    have ma: "mset a = mset [0..int ?N - 1]" and kle: "k \<le> length a"
      using ok_w Probe by (simp_all add: thread_ok_def Let_def)
    have la: "length a = ?N"
      using mset_eq_length [OF ma] by simp
    show ?thesis
    proof (cases "k < length a")
      case False
      have step: "worker_step sh init w c = (q, ts[w := Done])"
        using wts Probe False c by (simp add: worker_step_Probe_end)
      have "thread_weight ?N (snd (worker_step sh init w c) ! w)
          < thread_weight ?N (snd c ! w)"
        using step c wts Probe kle la by simp
      moreover have "tasks_left (worker_step sh init w c) = tasks_left c"
        using step c by (simp add: tasks_left_def)
      ultimately show ?thesis
        by simp
    next
      case True
      have rng: "0 \<le> a ! k" "nat (a ! k) < length (m_states q)"
        using perm_range [OF ma True] I(4) by simp_all
      let ?idx = "nat (a ! k)"
      show ?thesis
      proof (cases "m_queue (m_states q ! ?idx)")
        case Nil
        have step: "worker_step sh init w c = (q, ts[w := Probe a (k + 1)])"
          using wts Probe True rng Nil c by (simp add: worker_step_Probe_empty)
        have "thread_weight ?N (snd (worker_step sh init w c) ! w)
            < thread_weight ?N (snd c ! w)"
          using step c wts Probe True la by simp
        moreover have "tasks_left (worker_step sh init w c) = tasks_left c"
          using step c by (simp add: tasks_left_def)
        ultimately show ?thesis
          by simp
      next
        case (Cons t rest)
        let ?qp = "q\<lparr>m_states := (m_states q)[?idx := (m_states q ! ?idx)\<lparr>m_queue := rest\<rparr>]\<rparr>"
        have step: "worker_step sh init w c = (consume ?qp w t, ts[w := Probe a 0])"
          using wts Probe True rng Cons c by (simp add: worker_step_Probe_task)
        have wqp: "w < length (m_states ?qp)"
          using wst by simp
        have "pending (m_states (consume ?qp w t)) = pending (m_states ?qp)"
          using consume_effect(9) [OF wqp] .
        moreover have "pending (m_states ?qp) + {#t#} = pending (m_states q)"
          using pending_pop [OF rng(2) Cons, of "(m_states q ! ?idx)\<lparr>m_queue := rest\<rparr>"]
          by simp
        ultimately have "size (pending (m_states (consume ?qp w t))) < size (pending (m_states q))"
          by (metis size_union size_single less_add_one)
        then have "tasks_left (worker_step sh init w c) < tasks_left c"
          using step c by (simp add: tasks_left_def)
        moreover have "thread_weight ?N (snd (worker_step sh init w c) ! w) \<le> ?N + 1"
          using step wts by simp
        ultimately show ?thesis
          by simp
      qed
    qed
  next
    case Done
    then show ?thesis
      using live c by simp
  next
    case (Crashed e)
    then show ?thesis
      using ok_w by (simp add: thread_ok_def Let_def)
  qed
qed

lemma live_weight_positive:
  assumes inv: "run_inv q0 init cs c" and w: "w < m_num_threads q0"
    and live: "snd c ! w \<noteq> Done"
  shows "0 < thread_weight (m_num_threads q0) (snd c ! w)"
proof -
  obtain q ts where c: "c = (q, ts)"
    by (cases c)
  note I = run_invD [OF inv [unfolded c]]
  show ?thesis
  proof (cases "ts ! w")
    case (Probe a k)
    have ma: "mset a = mset [0..int (m_num_threads q0) - 1]" and kle: "k \<le> length a"
      using I(9) [OF w] Probe by (simp_all add: thread_ok_def Let_def)
    have "length a = m_num_threads q0"
      using mset_eq_length [OF ma] by simp
    then show ?thesis
      using Probe kle c by simp
  next
    case (Crashed e)
    then show ?thesis
      using I(9) [OF w] by (simp add: thread_ok_def Let_def)
  qed (use live c in simp_all)
qed

lemma worker_step_Done_any:
  "snd c ! w = Done \<Longrightarrow> snd (worker_step sh init v c) ! w = Done"
proof (cases "v = w")
  case True
  assume d: "snd c ! w = Done"
  show ?thesis
  proof (cases "w < length (snd c)")
    case True
    then have "worker_step sh init w c = c"
      using d worker_step_Done [of w "snd c" sh init "fst c"] by simp
    then show ?thesis
      using d \<open>v = w\<close> by simp
  next
    case False
    then have "worker_step sh init w c = c"
      using worker_step_out_of_range [of w "snd c" sh init "fst c"] by simp
    then show ?thesis
      using d \<open>v = w\<close> by simp
  qed
next
  case False
  assume "snd c ! w = Done"
  then show ?thesis
    using worker_step_other_thread [OF False, of sh init c] by simp
qed

lemma tasks_left_step:
  assumes inv: "run_inv q0 init cs c"
    and N31: "m_num_threads q0 < 2 ^ 31"
    and perm: "\<And>v. v < m_num_threads q0 \<Longrightarrow>
        mset (sh v [0..int (m_num_threads q0) - 1]) = mset [0..int (m_num_threads q0) - 1]"
  shows "tasks_left (worker_step sh init v c) \<le> tasks_left c"
proof (cases "v < m_num_threads q0 \<and> snd c ! v \<noteq> Done")
  case True
  then show ?thesis
    using worker_step_progress [where sh = sh, OF inv N31 perm, of v] by auto
next
  case False
  have len: "length (snd c) = m_num_threads q0"
    using run_invD(5) [of q0 init cs "fst c" "snd c"] inv by simp
  have "worker_step sh init v c = c"
  proof (cases "v < m_num_threads q0")
    case True
    then have "snd c ! v = Done"
      using False by simp
    then show ?thesis
      using True len worker_step_Done [of v "snd c" sh init "fst c"] by simp
  next
    case False
    then show ?thesis
      using len worker_step_out_of_range [of v "snd c" sh init "fst c"] by simp
  qed
  then show ?thesis
    by simp
qed

lemma run_workers_Done:
  "snd c ! w = Done \<Longrightarrow> snd (run_workers sh init sched c) ! w = Done"
proof (induction sched arbitrary: c)
  case Nil
  then show ?case by (simp add: run_workers_Nil)
next
  case (Cons u sched)
  have "snd (worker_step sh init u c) ! w = Done"
    using Cons.prems by (rule worker_step_Done_any)
  then show ?case
    using Cons.IH by (simp add: run_workers_Cons)
qed

lemma worker_fuel_run:
  assumes N31: "m_num_threads q0 < 2 ^ 31"
    and perm: "\<And>v. v < m_num_threads q0 \<Longrightarrow>
        mset (sh v [0..int (m_num_threads q0) - 1]) = mset [0..int (m_num_threads q0) - 1]"
    and w: "w < m_num_threads q0"
  shows "run_inv q0 init cs c \<Longrightarrow>
         snd (run_workers sh init sched c) ! w = Done \<or>
         worker_fuel (m_num_threads q0) w (run_workers sh init sched c) + count_list sched w
           \<le> worker_fuel (m_num_threads q0) w c"
proof (induction sched arbitrary: cs c)
  case Nil
  then show ?case
    by (simp add: run_workers_Nil)
next
  case (Cons v sched)
  let ?N = "m_num_threads q0"
  let ?c1 = "worker_step sh init v c"
  let ?c' = "run_workers sh init sched ?c1"
  have unfold: "run_workers sh init (v # sched) c = ?c'"
    by (rule run_workers_Cons)
  obtain cs1 where inv1: "run_inv q0 init cs1 ?c1"
    using run_inv_step [where sh = sh, OF Cons.prems N31 perm] by blast
  have IH: "snd ?c' ! w = Done \<or>
      worker_fuel ?N w ?c' + count_list sched w \<le> worker_fuel ?N w ?c1"
    using Cons.IH [OF inv1] .
  have tl: "tasks_left ?c1 \<le> tasks_left c"
    by (rule tasks_left_step [where sh = sh, OF Cons.prems N31 perm])
  show ?case
  proof (cases "snd c ! w = Done")
    case True
    then have "snd (run_workers sh init (v # sched) c) ! w = Done"
      by (rule run_workers_Done)
    then show ?thesis
      by simp
  next
    case live: False
    show ?thesis
    proof (cases "v = w")
      case False
      have same: "snd ?c1 ! w = snd c ! w"
        using worker_step_other_thread [OF False] .
      have "tasks_left ?c1 * (?N + 1) \<le> tasks_left c * (?N + 1)"
        using tl by (rule mult_le_mono1)
      then have "worker_fuel ?N w ?c1 \<le> worker_fuel ?N w c"
        unfolding worker_fuel_def same by (rule add_le_mono1)
      then show ?thesis
        using IH False unfold by auto
    next
      case True
      note P = worker_step_progress [where sh = sh, OF Cons.prems N31 perm w live]
      have pos: "0 < thread_weight ?N (snd c ! w)"
        by (rule live_weight_positive [OF Cons.prems w live])
      have less: "worker_fuel ?N w (worker_step sh init w c) < worker_fuel ?N w c"
      proof (cases "tasks_left (worker_step sh init w c) < tasks_left c")
        case True
        then have wt: "thread_weight ?N (snd (worker_step sh init w c) ! w) \<le> ?N + 1"
          using P by auto
        have "tasks_left (worker_step sh init w c) + 1 \<le> tasks_left c"
          using True by simp
        then have "(tasks_left (worker_step sh init w c) + 1) * (?N + 1)
            \<le> tasks_left c * (?N + 1)"
          by (rule mult_le_mono1)
        then have "tasks_left (worker_step sh init w c) * (?N + 1) + (?N + 1)
            \<le> tasks_left c * (?N + 1)"
          by (simp add: algebra_simps)
        then show ?thesis
          using wt pos by (simp add: worker_fuel_def)
      next
        case False
        then show ?thesis
          using P by (auto simp: worker_fuel_def)
      qed
      then show ?thesis
        using IH True unfold by auto
    qed
  qed
qed

lemma count_list_upt: "count_list [0..<n] w = (if w < n then 1 else 0)"
  by (induction n) auto

lemma count_list_round_robin: "w < N \<Longrightarrow> count_list (round_robin N rounds) w = rounds"
  by (induction rounds) (simp_all add: round_robin_def count_list_upt)

lemma thread_weight_le: "thread_weight N t \<le> N + 2"
  by (cases t) simp_all

lemma run_enough_fuel:
  assumes N31: "m_num_threads q0 < 2 ^ 31"
    and perm: "\<And>v. v < m_num_threads q0 \<Longrightarrow>
        mset (sh v [0..int (m_num_threads q0) - 1]) = mset [0..int (m_num_threads q0) - 1]"
    and inv: "run_inv q0 init cs c"
    and fuel: "\<And>w. w < m_num_threads q0 \<Longrightarrow>
        tasks_left c * (m_num_threads q0 + 1) + m_num_threads q0 + 2 \<le> count_list sched w"
  shows "list_all (\<lambda>t. t = Done) (snd (run_workers sh init sched c))"
proof -
  let ?N = "m_num_threads q0"
  let ?c' = "run_workers sh init sched c"
  obtain cs' where inv': "run_inv q0 init cs' ?c'"
    using run_inv_run [where sh = sh and sched = sched, OF inv N31 perm] by blast
  have len: "length (snd ?c') = ?N"
    using run_invD(5) [of q0 init cs' "fst ?c'" "snd ?c'"] inv' by simp
  have "snd ?c' ! w = Done" if w: "w < ?N" for w
  proof (rule ccontr)
    assume live: "snd ?c' ! w \<noteq> Done"
    have "worker_fuel ?N w ?c' + count_list sched w \<le> worker_fuel ?N w c"
      using worker_fuel_run [where sh = sh and sched = sched, OF N31 perm w inv] live by blast
    moreover have "worker_fuel ?N w c \<le> tasks_left c * (?N + 1) + ?N + 2"
      using thread_weight_le [of ?N "snd c ! w"] by (simp add: worker_fuel_def)
    moreover have "0 < worker_fuel ?N w ?c'"
      using live_weight_positive [OF inv' w live] by (simp add: worker_fuel_def)
    ultimately show False
      using fuel [OF w] by linarith
  qed
  then show ?thesis
    using len by (simp add: list_all_length)
qed

lemma run_all_enough_fuel:
  assumes len: "length (m_states q) = m_num_threads q"
    and N31: "m_num_threads q < 2 ^ 31"
    and perm: "\<And>v. v < m_num_threads q \<Longrightarrow>
        mset (sh v [0..int (m_num_threads q) - 1]) = mset [0..int (m_num_threads q) - 1]"
    and fuel: "\<forall>w<m_num_threads q. run_fuel q \<le> count_list sched w"
  shows "\<exists>r q'. run_all sh sched q init = Some (r, q')"
proof -
  let ?start = "(q, replicate (m_num_threads q) Start)"
  have enough: "tasks_left ?start * (m_num_threads q + 1) + m_num_threads q + 2
      \<le> count_list sched w" if "w < m_num_threads q" for w
    using fuel that by (simp add: run_fuel_def tasks_left_def)
  have "list_all (\<lambda>t. t = Done) (snd (run_workers sh init sched ?start))"
    by (rule run_enough_fuel [where sh = sh and c = ?start,
          OF N31 perm run_inv_initial [OF len] enough])
  then have "run_all sh sched q init \<noteq> None"
    by (simp add: run_all_def Let_def)
  then show ?thesis
    by auto
qed

lemma run_all_extends:
  assumes len: "length (m_states q) = m_num_threads q"
    and N31: "m_num_threads q < 2 ^ 31"
    and perm: "\<And>v. v < m_num_threads q \<Longrightarrow>
        mset (sh v [0..int (m_num_threads q) - 1]) = mset [0..int (m_num_threads q) - 1]"
  shows "\<exists>sched' r q'. run_all sh (sched @ sched') q init = Some (r, q')"
proof -
  let ?N = "m_num_threads q"
  let ?start = "(q, replicate ?N Start)"
  let ?c = "run_workers sh init sched ?start"
  obtain cs where inv: "run_inv q init cs ?c"
    using run_inv_run [where sh = sh and sched = sched, OF run_inv_initial [OF len] N31 perm]
    by blast
  let ?K = "tasks_left ?c * (?N + 1) + ?N + 2"
  have enough: "tasks_left ?c * (?N + 1) + ?N + 2 \<le> count_list (round_robin ?N ?K) w"
    if "w < ?N" for w
    using that by (simp add: count_list_round_robin)
  have fin: "list_all (\<lambda>t. t = Done) (snd (run_workers sh init (round_robin ?N ?K) ?c))"
    by (rule run_enough_fuel [where sh = sh and c = ?c, OF N31 perm inv enough])
  have eq: "run_workers sh init (sched @ round_robin ?N ?K) ?start =
      run_workers sh init (round_robin ?N ?K) ?c"
    by (rule run_workers_append)
  have "list_all (\<lambda>t. t = Done)
      (snd (run_workers sh init (sched @ round_robin ?N ?K) ?start))"
    unfolding eq by (rule fin)
  then have "run_all sh (sched @ round_robin ?N ?K) q init \<noteq> None"
    by (simp add: run_all_def Let_def)
  then show ?thesis
    by auto
qed

lemma run_never_crashes:
  assumes len: "length (m_states q) = m_num_threads q"
    and N31: "m_num_threads q < 2 ^ 31"
    and perm: "\<And>v. v < m_num_threads q \<Longrightarrow>
        mset (sh v [0..int (m_num_threads q) - 1]) = mset [0..int (m_num_threads q) - 1]"
    and w: "w < m_num_threads q"
  shows "snd (run_workers sh init sched (q, replicate (m_num_threads q) Start)) ! w \<noteq> Crashed e"
proof -
  let ?c = "run_workers sh init sched (q, replicate (m_num_threads q) Start)"
  obtain cs where inv: "run_inv q init cs ?c"
    using run_inv_run [where sh = sh and sched = sched, OF run_inv_initial [OF len] N31 perm]
    by blast
  have "thread_ok q init (fst ?c) w (cs ! w) (snd ?c ! w)"
    using run_invD(9) [of q init cs "fst ?c" "snd ?c", OF _ w] inv by simp
  then show ?thesis
    by (auto simp: thread_ok_def Let_def)
qed

subsection \<open>Reduction\<close>

text \<open>
  For an associative and commutative reducer the fold over a list depends on the
  multiset of its elements only, and the fold over the workers' results is the fold over
  all the outputs with one copy of the initial value for each worker.
\<close>

lemma foldl_assoc_join:
  assumes assoc: "\<And>x y z. r (r x y) z = r x (r y z)"
  shows "r (foldl r a xs) (foldl r b ys) = foldl r a (xs @ b # ys)"
proof (induction ys rule: rev_induct)
  case Nil
  then show ?case by simp
next
  case (snoc y ys)
  have "r (foldl r a xs) (foldl r b (ys @ [y])) = r (r (foldl r a xs) (foldl r b ys)) y"
    by (simp add: assoc)
  then show ?case
    using snoc.IH by simp
qed

lemma foldl_ac_mset:
  assumes assoc: "\<And>x y z. r (r x y) z = r x (r y z)"
    and comm: "\<And>x y. r x y = r y x"
    and m: "mset xs = mset ys"
  shows "foldl r a xs = foldl r a ys"
proof -
  have swap: "(\<lambda>s. r s x) \<circ> (\<lambda>s. r s y) = (\<lambda>s. r s y) \<circ> (\<lambda>s. r s x)" for x y
  proof
    fix s
    have "r (r s y) x = r s (r y x)"
      by (rule assoc)
    also have "\<dots> = r s (r x y)"
      by (simp only: comm [of y x])
    also have "\<dots> = r (r s x) y"
      by (rule assoc [symmetric])
    finally show "((\<lambda>s. r s x) \<circ> (\<lambda>s. r s y)) s = ((\<lambda>s. r s y) \<circ> (\<lambda>s. r s x)) s"
      by simp
  qed
  have "fold (\<lambda>x s. r s x) xs = fold (\<lambda>x s. r s x) ys"
    by (rule fold_multiset_equiv [OF swap m])
  then show ?thesis
    by (simp add: foldl_conv_fold)
qed

lemma consume_seq_outputs:
  "fst (consume_seq mapper r wid (acc, d) tasks) =
     foldl r acc (mapper_outputs mapper wid d tasks)"
proof (induction tasks arbitrary: acc d)
  case Nil
  then show ?case by simp
next
  case (Cons t tasks)
  obtain out d' where m: "mapper wid d t = (out, d')"
    by (cases "mapper wid d t")
  then show ?case
    using Cons.IH by simp
qed

lemma mapper_outputs_pure:
  assumes "\<And>w d t. fst (mapper w d t) = f t"
  shows "mapper_outputs mapper wid d tasks = map f tasks"
proof (induction tasks arbitrary: d)
  case Nil
  then show ?case by simp
next
  case (Cons t tasks)
  obtain out d' where m: "mapper wid d t = (out, d')"
    by (cases "mapper wid d t")
  then have "out = f t"
    using assms [of wid d t] by simp
  then show ?case
    using m Cons.IH by simp
qed

lemma foldl_results_join:
  assumes assoc: "\<And>x y z. r (r x y) z = r x (r y z)"
  shows "foldl r init (map (foldl r init) os) = foldl r init (concat (map ((#) init) os))"
proof (induction os rule: rev_induct)
  case Nil
  then show ?case by simp
next
  case (snoc c os)
  let ?L = "concat (map ((#) init) os)"
  have "foldl r init (map (foldl r init) (os @ [c])) = r (foldl r init ?L) (foldl r init c)"
    using snoc.IH by simp
  also have "\<dots> = foldl r init (?L @ init # c)"
    by (rule foldl_assoc_join [OF assoc])
  finally show ?case
    by simp
qed

lemma mset_results_join:
  "mset (concat (map ((#) init) os)) = mset (concat os) + replicate_mset (length os) init"
  by (induction os) simp_all

lemma run_outputs_pure:
  assumes pure: "\<And>w d t. fst (m_mapper q w d t) = f t"
    and lcs: "length cs = m_num_threads q"
  shows "mset (concat (run_outputs q cs)) = image_mset f (mset (concat cs))"
proof -
  have "run_outputs q cs = map (\<lambda>w. map f (cs ! w)) [0..<length cs]"
    using lcs by (simp add: run_outputs_def mapper_outputs_pure [OF pure])
  also have "\<dots> = map (map f) cs"
    by (rule nth_equalityI) simp_all
  finally have "concat (run_outputs q cs) = map f (concat cs)"
    by (simp add: map_concat)
  then show ?thesis
    by simp
qed

lemma run_all_reduction_outputs:
  assumes assoc: "\<And>x y z. m_reducer q (m_reducer q x y) z = m_reducer q x (m_reducer q y z)"
    and comm: "\<And>x y. m_reducer q x y = m_reducer q y x"
    and len: "length (m_states q) = m_num_threads q"
    and N1: "1 \<le> m_num_threads q"
    and N31: "m_num_threads q < 2 ^ 31"
    and perm: "\<And>v. v < m_num_threads q \<Longrightarrow>
        mset (sh v [0..int (m_num_threads q) - 1]) = mset [0..int (m_num_threads q) - 1]"
    and run: "run_all sh sched q init = Some (r, q')"
  shows "\<exists>cs. length cs = m_num_threads q \<and>
              mset (concat cs) = pending (m_states q) \<and>
              (\<forall>xs. mset xs = mset (concat (run_outputs q cs)) +
                                replicate_mset (m_num_threads q) init \<longrightarrow>
                    r = foldl (m_reducer q) init xs)"
proof -
  let ?N = "m_num_threads q"
  obtain cs where lcs: "length cs = ?N"
    and mcs: "mset (concat cs) = pending (m_states q)"
    and lq': "length (m_states q') = ?N"
    and per: "\<forall>w<?N. (m_result (m_states q' ! w), m_data (m_states q' ! w)) =
        consume_seq (m_mapper q) (m_reducer q) (m_wid (m_states q ! w))
          (init, m_data (m_states q ! w)) (cs ! w) \<and> m_queue (m_states q' ! w) = []"
    and r: "r = foldl (m_reducer q) init (map m_result (m_states q'))"
    using run_all_structure [where sh = sh, OF len N1 N31 perm run] by blast
  let ?os = "run_outputs q cs"
  have los: "length ?os = ?N"
    by (simp add: run_outputs_def)
  have "map m_result (m_states q') = map (foldl (m_reducer q) init) ?os"
  proof (rule nth_equalityI)
    show "length (map m_result (m_states q')) = length (map (foldl (m_reducer q) init) ?os)"
      using los lq' by simp
    fix w assume "w < length (map m_result (m_states q'))"
    then have w: "w < ?N"
      using lq' by simp
    have "(m_result (m_states q' ! w), m_data (m_states q' ! w)) =
        consume_seq (m_mapper q) (m_reducer q) (m_wid (m_states q ! w))
          (init, m_data (m_states q ! w)) (cs ! w)"
      using per w by blast
    then have "fst (m_result (m_states q' ! w), m_data (m_states q' ! w)) =
        fst (consume_seq (m_mapper q) (m_reducer q) (m_wid (m_states q ! w))
          (init, m_data (m_states q ! w)) (cs ! w))"
      by (rule arg_cong)
    then have "m_result (m_states q' ! w) =
        foldl (m_reducer q) init (?os ! w)"
      using w by (simp add: consume_seq_outputs run_outputs_def)
    then show "map m_result (m_states q') ! w = map (foldl (m_reducer q) init) ?os ! w"
      using w los lq' by simp
  qed
  then have r1: "r = foldl (m_reducer q) init (concat (map ((#) init) ?os))"
    using r foldl_results_join [of "m_reducer q" init ?os, OF assoc] by simp
  have all: "r = foldl (m_reducer q) init xs"
    if xs: "mset xs = mset (concat ?os) + replicate_mset ?N init" for xs
  proof -
    have "mset (concat (map ((#) init) ?os)) =
        mset (concat ?os) + replicate_mset (length ?os) init"
      by (rule mset_results_join)
    also have "\<dots> = mset xs"
      by (simp only: xs los)
    finally have "foldl (m_reducer q) init (concat (map ((#) init) ?os)) =
        foldl (m_reducer q) init xs"
      by (rule foldl_ac_mset [of "m_reducer q", OF assoc comm])
    with r1 show ?thesis
      by (rule trans)
  qed
  show ?thesis
    using lcs mcs all by (intro exI [of _ cs] conjI allI impI)
qed

lemma add_items_single_worker:
  assumes new: "WorkQueue_new dflt mapper reducer di 1 = Inr q0"
  shows "m_states (add_items q0 xs) =
           [\<lparr>m_wid = 0, m_queue = xs, m_data = di 0, m_result = dflt\<rparr>] \<and>
         m_num_threads (add_items q0 xs) = 1 \<and>
         m_mapper (add_items q0 xs) = mapper \<and> m_reducer (add_items q0 xs) = reducer"
proof (induction xs rule: rev_induct)
  case Nil
  show ?case
    using new by (auto simp: add_items_def WorkQueue_new_def WorkerState_new_def)
next
  case (snoc x xs)
  have "add_items q0 (xs @ [x]) = add_item (add_items q0 xs) x"
    by (simp add: add_items_def)
  then show ?case
    using snoc.IH by (simp add: add_item_def Let_def push_task_def)
qed

subsection \<open>The result of run_all\<close>

text \<open>
  Claim C5. \<open>run_all\<close> returns under every interleaving of the worker threads: no
  thread crashes, every schedule can be continued until all workers have returned, and
  a schedule that gives every worker \<open>run_fuel q\<close> steps is long enough. Whenever it
  returns, the result is the reducer folded, from \<open>init_output\<close>, over the workers'
  accumulated outputs, and the accumulated output of each worker is the reducer folded,
  again from \<open>init_output\<close>, over the mapper outputs of the tasks that this worker
  consumed, in the order in which it consumed them; every submitted task is consumed by
  exactly one worker. With one worker the tasks are consumed in the order of the queue,
  which is the order of submission, so the result is
  \<open>reducer init_output (fold of the reducer over the mapper outputs from init_output)\<close>.
  The mapper reads and writes the data of its worker and does not call \<^verbatim>\<open>push_task\<close>.
\<close>

theorem C5_run_all_fold:
  assumes len: "length (m_states q) = m_num_threads q"
    and N1: "1 \<le> m_num_threads q"
    and N31: "m_num_threads q < 2 ^ 31"
    and perm: "\<And>v. v < m_num_threads q \<Longrightarrow>
        mset (sh v [0..int (m_num_threads q) - 1]) = mset [0..int (m_num_threads q) - 1]"
  shows "(\<forall>sched. (\<forall>w<m_num_threads q. run_fuel q \<le> count_list sched w) \<longrightarrow>
            (\<exists>r q'. run_all sh sched q init = Some (r, q'))) \<and>
         (\<forall>sched. \<exists>sched' r q'. run_all sh (sched @ sched') q init = Some (r, q')) \<and>
         (\<forall>sched w e. w < m_num_threads q \<longrightarrow>
            snd (run_workers sh init sched (q, replicate (m_num_threads q) Start)) ! w
              \<noteq> Crashed e) \<and>
         (\<forall>sched r q'. run_all sh sched q init = Some (r, q') \<longrightarrow>
            (\<exists>cs. length cs = m_num_threads q \<and>
                  mset (concat cs) = pending (m_states q) \<and>
                  (\<forall>w<m_num_threads q.
                     m_result (m_states q' ! w) =
                       fst (consume_seq (m_mapper q) (m_reducer q) (m_wid (m_states q ! w))
                              (init, m_data (m_states q ! w)) (cs ! w))) \<and>
                  r = foldl (m_reducer q) init (map m_result (m_states q'))) \<and>
            (m_num_threads q = 1 \<longrightarrow>
               r = m_reducer q init
                     (fst (consume_seq (m_mapper q) (m_reducer q) (m_wid (m_states q ! 0))
                             (init, m_data (m_states q ! 0)) (m_queue (m_states q ! 0)))))) \<and>
         (\<forall>dflt di tasks q0.
            WorkQueue_new dflt (m_mapper q) (m_reducer q) di 1 = Inr q0 \<and>
            q = add_items q0 tasks \<longrightarrow>
            m_queue (m_states q ! 0) = tasks \<and> m_wid (m_states q ! 0) = 0 \<and>
            m_data (m_states q ! 0) = di 0 \<and> m_num_threads q = 1)"
proof (intro conjI allI impI)
  fix sched
  assume fuel: "\<forall>w<m_num_threads q. run_fuel q \<le> count_list sched w"
  show "\<exists>r q'. run_all sh sched q init = Some (r, q')"
    by (rule run_all_enough_fuel [where sh = sh, OF len N31 perm fuel])
next
  fix sched
  show "\<exists>sched' r q'. run_all sh (sched @ sched') q init = Some (r, q')"
    by (rule run_all_extends [where sh = sh, OF len N31 perm])
next
  fix sched w e
  assume w: "w < m_num_threads q"
  show "snd (run_workers sh init sched (q, replicate (m_num_threads q) Start)) ! w
      \<noteq> Crashed e"
    by (rule run_never_crashes [where sh = sh, OF len N31 perm w])
next
  fix sched r q'
  assume run: "run_all sh sched q init = Some (r, q')"
  obtain cs where lcs: "length cs = m_num_threads q"
    and mcs: "mset (concat cs) = pending (m_states q)"
    and per: "\<forall>w<m_num_threads q.
        (m_result (m_states q' ! w), m_data (m_states q' ! w)) =
          consume_seq (m_mapper q) (m_reducer q) (m_wid (m_states q ! w))
            (init, m_data (m_states q ! w)) (cs ! w) \<and> m_queue (m_states q' ! w) = []"
    and fifo: "m_num_threads q = 1 \<longrightarrow> cs ! 0 = m_queue (m_states q ! 0)"
    and lq': "length (m_states q') = m_num_threads q"
    and r: "r = foldl (m_reducer q) init (map m_result (m_states q'))"
    using run_all_structure [where sh = sh, OF len N1 N31 perm run] by blast
  have res: "\<forall>w<m_num_threads q.
      m_result (m_states q' ! w) =
        fst (consume_seq (m_mapper q) (m_reducer q) (m_wid (m_states q ! w))
               (init, m_data (m_states q ! w)) (cs ! w))"
  proof (intro allI impI)
    fix w assume "w < m_num_threads q"
    then have "(m_result (m_states q' ! w), m_data (m_states q' ! w)) =
          consume_seq (m_mapper q) (m_reducer q) (m_wid (m_states q ! w))
            (init, m_data (m_states q ! w)) (cs ! w)"
      using per by blast
    then have "fst (m_result (m_states q' ! w), m_data (m_states q' ! w)) =
          fst (consume_seq (m_mapper q) (m_reducer q) (m_wid (m_states q ! w))
            (init, m_data (m_states q ! w)) (cs ! w))"
      by (rule arg_cong)
    then show "m_result (m_states q' ! w) =
        fst (consume_seq (m_mapper q) (m_reducer q) (m_wid (m_states q ! w))
               (init, m_data (m_states q ! w)) (cs ! w))"
      by simp
  qed
  show "\<exists>cs. length cs = m_num_threads q \<and>
        mset (concat cs) = pending (m_states q) \<and>
        (\<forall>w<m_num_threads q.
           m_result (m_states q' ! w) =
             fst (consume_seq (m_mapper q) (m_reducer q) (m_wid (m_states q ! w))
                    (init, m_data (m_states q ! w)) (cs ! w))) \<and>
        r = foldl (m_reducer q) init (map m_result (m_states q'))"
    using lcs mcs res r by (intro exI [of _ cs] conjI)
  show "r = m_reducer q init
        (fst (consume_seq (m_mapper q) (m_reducer q) (m_wid (m_states q ! 0))
                (init, m_data (m_states q ! 0)) (m_queue (m_states q ! 0))))"
    if one: "m_num_threads q = 1"
  proof -
    have "m_states q' = [m_states q' ! 0]"
      using lq' one by (cases "m_states q'") simp_all
    then have "map m_result (m_states q') = [m_result (m_states q' ! 0)]"
      by (metis list.simps(8,9))
    then have "r = m_reducer q init (m_result (m_states q' ! 0))"
      using r by simp
    then show ?thesis
      using res one fifo by simp
  qed
next
  fix dflt di tasks q0
  assume "WorkQueue_new dflt (m_mapper q) (m_reducer q) di 1 = Inr q0 \<and> q = add_items q0 tasks"
  then have new: "WorkQueue_new dflt (m_mapper q) (m_reducer q) di 1 = Inr q0"
    and q: "q = add_items q0 tasks"
    by blast+
  note single = add_items_single_worker [OF new, of tasks]
  show "m_queue (m_states q ! 0) = tasks" "m_wid (m_states q ! 0) = 0"
    "m_data (m_states q ! 0) = di 0" "m_num_threads q = 1"
    using single q by simp_all
qed

theorem C5_run_all_fold_witness:
  "(\<exists>q'. run_all (\<lambda>w xs. xs) [0, 0, 0, 0, 0, 0, 0]
      \<lparr>m_mapper = (\<lambda>w d t. (t * 2, d)), m_reducer = (+),
       m_states = [\<lparr>m_wid = 0, m_queue = [5, 7], m_data = (), m_result = 0\<rparr>],
       m_num_threads = 1, m_insert_idx = 0\<rparr> (10::int) = Some (44, q')) \<and>
   map_option fst (run_all (\<lambda>w xs. xs) [0, 0, 0, 0, 0]
      \<lparr>m_mapper = (\<lambda>w d t. (t * 2, d)), m_reducer = (+),
       m_states = [\<lparr>m_wid = 0, m_queue = [5, 7], m_data = (), m_result = 0\<rparr>],
       m_num_threads = 1, m_insert_idx = 0\<rparr> (10::int)) = Some 44"
proof -
  have concrete: "map_option fst (run_all (\<lambda>w xs. xs) [0, 0, 0, 0, 0]
      \<lparr>m_mapper = (\<lambda>w d t. (t * 2, d)), m_reducer = (+),
       m_states = [\<lparr>m_wid = 0, m_queue = [5, 7], m_data = (), m_result = 0\<rparr>],
       m_num_threads = 1, m_insert_idx = 0\<rparr> (10::int)) = Some 44"
    by code_simp
  let ?q = "\<lparr>m_mapper = (\<lambda>w d t. (t * 2, d)), m_reducer = (+),
       m_states = [\<lparr>m_wid = 0, m_queue = [5, 7], m_data = (), m_result = 0\<rparr>],
       m_num_threads = 1, m_insert_idx = 0\<rparr> :: (int, unit, int) WorkQueue"
  have len: "length (m_states ?q) = m_num_threads ?q" and N1: "1 \<le> m_num_threads ?q"
    and N31: "m_num_threads ?q < 2 ^ 31"
    by simp_all
  have perm: "mset ((\<lambda>w xs. xs) v [0..int (m_num_threads ?q) - 1]) =
      mset [0..int (m_num_threads ?q) - 1]" for v :: nat
    by simp
  note th = C5_run_all_fold [where sh = "\<lambda>w xs. xs" and init = 10, OF len N1 N31 perm]
  have fuel: "\<forall>w<m_num_threads ?q. run_fuel ?q \<le> count_list [0, 0, 0, 0, 0, 0, 0] w"
    by (simp add: run_fuel_def pending_def)
  obtain r q' where run: "run_all (\<lambda>w xs. xs) [0, 0, 0, 0, 0, 0, 0] ?q 10 = Some (r, q')"
    using th fuel by blast
  have one: "m_num_threads ?q = 1"
    by simp
  have "r = m_reducer ?q 10
        (fst (consume_seq (m_mapper ?q) (m_reducer ?q) (m_wid (m_states ?q ! 0))
                (10, m_data (m_states ?q ! 0)) (m_queue (m_states ?q ! 0))))"
    using th run one by blast
  then have "r = 44"
    by simp
  then have "\<exists>q'. run_all (\<lambda>w xs. xs) [0, 0, 0, 0, 0, 0, 0] ?q 10 = Some (44, q')"
    using run by blast
  with concrete show ?thesis
    by (intro conjI)
qed

text \<open>
  Claim C4, as amended. For an associative and commutative reducer, \<open>run_all\<close> returns
  under every interleaving of the worker threads, and what it returns is the reduction
  from \<open>init_output\<close>, in any order, of the outputs that the mapper produced for the
  submitted tasks, each task mapped exactly once, together with one further copy of
  \<open>init_output\<close> for each worker. When the output of the mapper depends on the task
  alone, these outputs are the images of the submitted tasks. The mapper does not call
  \<^verbatim>\<open>push_task\<close>.
\<close>

theorem C4_run_all_reduction:
  assumes assoc: "\<And>x y z. m_reducer q (m_reducer q x y) z = m_reducer q x (m_reducer q y z)"
    and comm: "\<And>x y. m_reducer q x y = m_reducer q y x"
    and len: "length (m_states q) = m_num_threads q"
    and N1: "1 \<le> m_num_threads q"
    and N31: "m_num_threads q < 2 ^ 31"
    and perm: "\<And>v. v < m_num_threads q \<Longrightarrow>
        mset (sh v [0..int (m_num_threads q) - 1]) = mset [0..int (m_num_threads q) - 1]"
  shows "(\<forall>sched. (\<forall>w<m_num_threads q. run_fuel q \<le> count_list sched w) \<longrightarrow>
            (\<exists>r q'. run_all sh sched q init = Some (r, q'))) \<and>
         (\<forall>sched. \<exists>sched' r q'. run_all sh (sched @ sched') q init = Some (r, q')) \<and>
         (\<forall>sched w e. w < m_num_threads q \<longrightarrow>
            snd (run_workers sh init sched (q, replicate (m_num_threads q) Start)) ! w
              \<noteq> Crashed e) \<and>
         (\<forall>sched r q'. run_all sh sched q init = Some (r, q') \<longrightarrow>
            (\<exists>cs. length cs = m_num_threads q \<and>
                  mset (concat cs) = pending (m_states q) \<and>
                  (\<forall>xs. mset xs = mset (concat (run_outputs q cs)) +
                                    replicate_mset (m_num_threads q) init \<longrightarrow>
                        r = foldl (m_reducer q) init xs))) \<and>
         ((\<forall>w d t. fst (m_mapper q w d t) = f t) \<longrightarrow>
            (\<forall>sched r q' xs.
               run_all sh sched q init = Some (r, q') \<and>
               mset xs = image_mset f (pending (m_states q)) +
                           replicate_mset (m_num_threads q) init \<longrightarrow>
               r = foldl (m_reducer q) init xs))"
proof (intro conjI allI impI)
  fix sched
  assume fuel: "\<forall>w<m_num_threads q. run_fuel q \<le> count_list sched w"
  show "\<exists>r q'. run_all sh sched q init = Some (r, q')"
    by (rule run_all_enough_fuel [where sh = sh, OF len N31 perm fuel])
next
  fix sched
  show "\<exists>sched' r q'. run_all sh (sched @ sched') q init = Some (r, q')"
    by (rule run_all_extends [where sh = sh, OF len N31 perm])
next
  fix sched w e
  assume w: "w < m_num_threads q"
  show "snd (run_workers sh init sched (q, replicate (m_num_threads q) Start)) ! w
      \<noteq> Crashed e"
    by (rule run_never_crashes [where sh = sh, OF len N31 perm w])
next
  fix sched r q'
  assume run: "run_all sh sched q init = Some (r, q')"
  show "\<exists>cs. length cs = m_num_threads q \<and>
      mset (concat cs) = pending (m_states q) \<and>
      (\<forall>xs. mset xs = mset (concat (run_outputs q cs)) +
                        replicate_mset (m_num_threads q) init \<longrightarrow>
            r = foldl (m_reducer q) init xs)"
    by (rule run_all_reduction_outputs [where sh = sh, OF assoc comm len N1 N31 perm run])
next
  fix sched r q' xs
  assume pure: "\<forall>w d t. fst (m_mapper q w d t) = f t"
    and H: "run_all sh sched q init = Some (r, q') \<and>
      mset xs = image_mset f (pending (m_states q)) + replicate_mset (m_num_threads q) init"
  have run: "run_all sh sched q init = Some (r, q')"
    and xs: "mset xs = image_mset f (pending (m_states q)) +
      replicate_mset (m_num_threads q) init"
    using H by blast+
  obtain cs where lcs: "length cs = m_num_threads q"
    and mcs: "mset (concat cs) = pending (m_states q)"
    and all: "\<forall>xs. mset xs = mset (concat (run_outputs q cs)) +
        replicate_mset (m_num_threads q) init \<longrightarrow> r = foldl (m_reducer q) init xs"
    using run_all_reduction_outputs [where sh = sh, OF assoc comm len N1 N31 perm run]
    by blast
  have "mset (concat (run_outputs q cs)) = image_mset f (mset (concat cs))"
    using pure lcs by (intro run_outputs_pure) simp_all
  then have "mset xs = mset (concat (run_outputs q cs)) + replicate_mset (m_num_threads q) init"
    using xs mcs by simp
  then show "r = foldl (m_reducer q) init xs"
    using all by blast
qed

theorem C4_run_all_reduction_witness:
  "(\<exists>q'. run_all (\<lambda>w xs. xs) (round_robin 2 13)
      \<lparr>m_mapper = (\<lambda>w d t. (t * 2, d)), m_reducer = (+),
       m_states = [\<lparr>m_wid = 0, m_queue = [5], m_data = (), m_result = 0\<rparr>,
                   \<lparr>m_wid = 1, m_queue = [7, 9], m_data = (), m_result = 0\<rparr>],
       m_num_threads = 2, m_insert_idx = 0\<rparr> (10::int) = Some (72, q')) \<and>
   map_option fst (run_all (\<lambda>w xs. xs) [0, 1, 0, 1, 0, 0, 1, 1, 1, 0, 0, 0]
      \<lparr>m_mapper = (\<lambda>w d t. (t * 2, d)), m_reducer = (+),
       m_states = [\<lparr>m_wid = 0, m_queue = [5], m_data = (), m_result = 0\<rparr>,
                   \<lparr>m_wid = 1, m_queue = [7, 9], m_data = (), m_result = 0\<rparr>],
       m_num_threads = 2, m_insert_idx = 0\<rparr> (10::int)) = Some 72"
proof -
  have concrete: "map_option fst (run_all (\<lambda>w xs. xs) [0, 1, 0, 1, 0, 0, 1, 1, 1, 0, 0, 0]
      \<lparr>m_mapper = (\<lambda>w d t. (t * 2, d)), m_reducer = (+),
       m_states = [\<lparr>m_wid = 0, m_queue = [5], m_data = (), m_result = 0\<rparr>,
                   \<lparr>m_wid = 1, m_queue = [7, 9], m_data = (), m_result = 0\<rparr>],
       m_num_threads = 2, m_insert_idx = 0\<rparr> (10::int)) = Some 72"
    by code_simp
  let ?q = "\<lparr>m_mapper = (\<lambda>w d t. (t * 2, d)), m_reducer = (+),
       m_states = [\<lparr>m_wid = 0, m_queue = [5], m_data = (), m_result = 0\<rparr>,
                   \<lparr>m_wid = 1, m_queue = [7, 9], m_data = (), m_result = 0\<rparr>],
       m_num_threads = 2, m_insert_idx = 0\<rparr> :: (int, unit, int) WorkQueue"
  have assoc: "m_reducer ?q (m_reducer ?q x y) z = m_reducer ?q x (m_reducer ?q y z)"
    and comm: "m_reducer ?q x y = m_reducer ?q y x" for x y z
    by simp_all
  have pure: "\<forall>w d t. fst (m_mapper ?q w d t) = (\<lambda>t. t * 2) t"
    by simp
  have len: "length (m_states ?q) = m_num_threads ?q" and N1: "1 \<le> m_num_threads ?q"
    and N31: "m_num_threads ?q < 2 ^ 31"
    by simp_all
  have perm: "mset ((\<lambda>w xs. xs) v [0..int (m_num_threads ?q) - 1]) =
      mset [0..int (m_num_threads ?q) - 1]" for v :: nat
    by simp
  note th = C4_run_all_reduction [where sh = "\<lambda>w xs. xs" and init = 10 and f = "\<lambda>t. t * 2",
      OF assoc comm len N1 N31 perm]
  have fuel: "\<forall>w<m_num_threads ?q. run_fuel ?q \<le> count_list (round_robin 2 13) w"
    by (simp add: run_fuel_def pending_def count_list_round_robin)
  obtain r q' where run: "run_all (\<lambda>w xs. xs) (round_robin 2 13) ?q 10 = Some (r, q')"
    using th fuel by blast
  have xs: "mset [10, 14, 18, 10, 10] =
      image_mset (\<lambda>t. t * 2) (pending (m_states ?q)) + replicate_mset (m_num_threads ?q) (10::int)"
    by (simp add: pending_def numeral_2_eq_2)
  have "r = foldl (m_reducer ?q) 10 [10, 14, 18, 10, 10]"
    using th pure run xs by blast
  then have "r = 72"
    by simp
  then have "\<exists>q'. run_all (\<lambda>w xs. xs) (round_robin 2 13) ?q 10 = Some (72, q')"
    using run by blast
  with concrete show ?thesis
    by (intro conjI)
qed

theorem C4_run_all_reduction_counterexample:
  "map_option fst (run_all (\<lambda>w xs. xs) [0, 0, 0, 0]
      \<lparr>m_mapper = (\<lambda>w d t. (t, d)), m_reducer = (+),
       m_states = [\<lparr>m_wid = 0, m_queue = [5], m_data = (), m_result = 0\<rparr>],
       m_num_threads = 1, m_insert_idx = 0\<rparr> (1::int)) = Some 7 \<and>
   foldl (+) (1::int) (map (\<lambda>t. t) [5]) = 6"
  by (simp add: run_all_def run_workers_def worker_step_def create_permutation_def
      size_t_to_int_def iter_swap_def pop_task_def consume_def Let_def upto.simps)

end
